theory Spec2Isabelle
  imports Complex_Main
begin

section \<open>Data model of the game engine (GameEngine.js)\<close>

text \<open>
  The engine keeps a 7 x 7 board of one-character strings: \<^verbatim>\<open>'.'\<close> (EMPTY),
  \<^verbatim>\<open>'_'\<close> (BLOCKED), \<^verbatim>\<open>'H'\<close> (HUMAN) and \<^verbatim>\<open>'A'\<close> (AI). A player marker is
  written into a cell as it is, so a cell is EMPTY, BLOCKED or a player.
  Positions are two-element arrays \<^verbatim>\<open>[row, col]\<close> or \<^verbatim>\<open>null\<close>.
\<close>

datatype player = HUMAN | AI

datatype cell = EMPTY | BLOCKED | Piece player

type_synonym pos = "int \<times> int"

type_synonym board = "cell list list"

datatype phase = starting | playing | ended

text \<open>
  One constructor for each message the engine throws, and \<open>TypeError\<close> for what
  JavaScript raises when a property of \<^verbatim>\<open>null\<close> or \<^verbatim>\<open>undefined\<close> is read or
  written (a \<^verbatim>\<open>null\<close> position, a row index outside the board).
\<close>

datatype error =
    InvalidGameState      \<comment> \<open>'Invalid game state'\<close>
  | PositionOccupied      \<comment> \<open>'Position already occupied'\<close>
  | InvalidMove           \<comment> \<open>'Invalid move'\<close>
  | InvalidAIMove         \<comment> \<open>'Invalid AI move'\<close>
  | GameNotFound          \<comment> \<open>'Game not found'\<close>
  | CannotUndoEnded       \<comment> \<open>'Cannot undo moves in ended game'\<close>
  | NoMovesToUndo         \<comment> \<open>'No moves to undo'\<close>
  | NoHumanMovesToUndo    \<comment> \<open>'No human moves to undo'\<close>
  | TypeError

definition BOARD_SIZE :: int where
  "BOARD_SIZE = 7"

definition directions :: "(int \<times> int) list" where
  "directions = [(-1, 0), (1, 0), (0, -1), (0, 1), (-1, -1), (-1, 1), (1, -1), (1, 1)]"

definition initializeBoard :: board where
  "initializeBoard = replicate (nat BOARD_SIZE) (replicate (nat BOARD_SIZE) EMPTY)"

text \<open>
  \<^verbatim>\<open>board[r][c]\<close> as an expression: a row index outside the array gives
  \<^verbatim>\<open>undefined\<close>, whose property read throws; a column index outside the row gives
  \<^verbatim>\<open>undefined\<close> (here \<open>None\<close>), which is different from every cell string.
\<close>

definition read_col :: "cell list \<Rightarrow> int \<Rightarrow> cell option" where
  "read_col row c = (if 0 \<le> c \<and> c < int (length row) then Some (row ! nat c) else None)"

definition read_cell :: "board \<Rightarrow> int \<Rightarrow> int \<Rightarrow> error + cell option" where
  "read_cell b r c =
     (if 0 \<le> r \<and> r < int (length b) then Inr (read_col (b ! nat r) c) else Inl TypeError)"

text \<open>
  \<^verbatim>\<open>board[r][c] = v\<close> as a statement: a row index outside the array throws. A column
  index outside the row would attach the value to the row object beyond its cells;
  the model leaves the cells of the row as they are in that case. Every write the
  engine performs on a well-formed session is inside the grid.
\<close>

definition write_col :: "cell list \<Rightarrow> int \<Rightarrow> cell \<Rightarrow> cell list" where
  "write_col row c v = (if 0 \<le> c \<and> c < int (length row) then row[nat c := v] else row)"

definition write_cell :: "board \<Rightarrow> pos \<Rightarrow> cell \<Rightarrow> error + board" where
  "write_cell b p v =
     (if 0 \<le> fst p \<and> fst p < int (length b)
      then Inr (b[nat (fst p) := write_col (b ! nat (fst p)) (snd p) v])
      else Inl TypeError)"

definition isValidPosition :: "int \<Rightarrow> int \<Rightarrow> bool" where
  "isValidPosition row col \<longleftrightarrow> row \<ge> 0 \<and> row < BOARD_SIZE \<and> col \<ge> 0 \<and> col < BOARD_SIZE"

text \<open>
  \<^verbatim>\<open>getValidMoves(board, pos)\<close>: the loop over \<open>directions\<close>, pushing each in-bounds
  EMPTY neighbour in turn. Reading \<^verbatim>\<open>pos[0]\<close> of a \<^verbatim>\<open>null\<close> position throws.
\<close>

fun getValidMoves_loop :: "board \<Rightarrow> pos \<Rightarrow> (int \<times> int) list \<Rightarrow> pos list \<Rightarrow> error + pos list" where
  "getValidMoves_loop b p [] moves = Inr moves"
| "getValidMoves_loop b p ((dx, dy) # ds) moves =
     (let newRow = fst p + dx; newCol = snd p + dy in
      if isValidPosition newRow newCol then
        (case read_cell b newRow newCol of
           Inl e \<Rightarrow> Inl e
         | Inr c \<Rightarrow>
             getValidMoves_loop b p ds
               (if c = Some EMPTY then moves @ [(newRow, newCol)] else moves))
      else getValidMoves_loop b p ds moves)"

definition getValidMoves :: "board \<Rightarrow> pos option \<Rightarrow> error + pos list" where
  "getValidMoves b pos =
     (case pos of
        None \<Rightarrow> Inl TypeError
      | Some p \<Rightarrow> getValidMoves_loop b p directions [])"


section \<open>Sessions\<close>

text \<open>
  A move record as \<open>movePlayer\<close> pushes it: the acting player, the source position
  (\<^verbatim>\<open>null\<close> when the player had no position), the destination and a deep copy of the
  board after the move. The timestamp is left out: nothing reads it.
\<close>

record move_record =
  mv_player :: player
  mv_from :: "pos option"
  mv_to :: pos
  mv_board :: board

text \<open>
  The session object of \<open>createGame\<close>. The identifier is the key of the session in
  \<open>activeGames\<close>; \<open>playerId\<close>, \<open>createdAt\<close>, \<open>status\<close> and \<open>endedAt\<close> are never
  read by the operations below and are left out. \<open>winner\<close> is absent or \<^verbatim>\<open>null\<close>
  (\<open>None\<close>) until a game ends.
\<close>

record game =
  board :: board
  humanPos :: "pos option"
  aiPos :: "pos option"
  currentPlayer :: player
  gamePhase :: phase
  moveHistory :: "move_record list"
  winner :: "player option"

type_synonym gameId = string

type_synonym activeGames = "gameId \<rightharpoonup> game"

definition newGame :: game where
  "newGame = \<lparr>board = initializeBoard, humanPos = None, aiPos = None,
     currentPlayer = HUMAN, gamePhase = starting, moveHistory = [], winner = None\<rparr>"

text \<open>\<open>createGame\<close>: the fresh identifier (a UUID in the source) is a parameter.\<close>

definition createGame :: "activeGames \<Rightarrow> gameId \<Rightarrow> game \<times> activeGames" where
  "createGame games gid = (newGame, games(gid \<mapsto> newGame))"

text \<open>
  The operations mutate the session object in place and may throw after a mutation.
  Each is modelled as a function from the session to a result (\<open>Inl\<close> the error
  thrown) together with the session as it is when the call returns or throws.

  \<open>endGame\<close> also updates the aggregate statistics, notifies the recorder and writes
  the statistics file; these live outside the session and never throw to the caller
  (the file write catches its own errors, the recorder call is not awaited), so the
  model keeps the two session fields.
\<close>

definition endGame :: "game \<Rightarrow> player \<Rightarrow> game" where
  "endGame g w = g\<lparr>gamePhase := ended, winner := Some w\<rparr>"

definition checkGameEnd :: "game \<Rightarrow> (error + unit) \<times> game" where
  "checkGameEnd g =
     (case getValidMoves (board g) (humanPos g) of
        Inl e \<Rightarrow> (Inl e, g)
      | Inr humanMoves \<Rightarrow>
          (case getValidMoves (board g) (aiPos g) of
             Inl e \<Rightarrow> (Inl e, g)
           | Inr aiMoves \<Rightarrow>
               if length humanMoves = 0 then (Inr (), endGame g AI)
               else if length aiMoves = 0 then (Inr (), endGame g HUMAN)
               else (Inr (), g)))"

definition checkGameEndSimulation :: "game \<Rightarrow> (error + unit) \<times> game" where
  "checkGameEndSimulation g =
     (case getValidMoves (board g) (humanPos g) of
        Inl e \<Rightarrow> (Inl e, g)
      | Inr humanMoves \<Rightarrow>
          (case getValidMoves (board g) (aiPos g) of
             Inl e \<Rightarrow> (Inl e, g)
           | Inr aiMoves \<Rightarrow>
               if length humanMoves = 0 then (Inr (), g\<lparr>gamePhase := ended, winner := Some AI\<rparr>)
               else if length aiMoves = 0 then (Inr (), g\<lparr>gamePhase := ended, winner := Some HUMAN\<rparr>)
               else (Inr (), g)))"

text \<open>
  \<open>movePlayer(game, player, newPos, isSimulation)\<close>. \<open>newPos\<close> is \<open>None\<close> when the
  caller passes \<^verbatim>\<open>undefined\<close>; reading \<^verbatim>\<open>newPos[0]\<close> then throws, after the old
  position has been blocked.
\<close>

definition movePlayer :: "game \<Rightarrow> player \<Rightarrow> pos option \<Rightarrow> bool \<Rightarrow> (error + unit) \<times> game" where
  "movePlayer g p newPos isSimulation =
     (let oldPos = (if p = HUMAN then humanPos g else aiPos g) in
      case (case oldPos of None \<Rightarrow> Inr (board g) | Some old \<Rightarrow> write_cell (board g) old BLOCKED) of
        Inl e \<Rightarrow> (Inl e, g)
      | Inr b1 \<Rightarrow>
          (case newPos of
             None \<Rightarrow> (Inl TypeError, g\<lparr>board := b1\<rparr>)
           | Some new \<Rightarrow>
               (case write_cell b1 new (Piece p) of
                  Inl e \<Rightarrow> (Inl e, g\<lparr>board := b1\<rparr>)
                | Inr b2 \<Rightarrow>
                    (let g2 = (if p = HUMAN then g\<lparr>board := b2, humanPos := Some new\<rparr>
                               else g\<lparr>board := b2, aiPos := Some new\<rparr>);
                         g3 = g2\<lparr>moveHistory := moveHistory g2 @
                                [\<lparr>mv_player = p, mv_from = oldPos, mv_to = new, mv_board = b2\<rparr>]\<rparr>
                     in if isSimulation then checkGameEndSimulation g3 else checkGameEnd g3))))"

text \<open>
  \<open>placeStartingPosition\<close>, for a session that was found. \<open>u\<close> is the value of
  \<^verbatim>\<open>Math.random()\<close>; an index outside \<open>adjacentMoves\<close> gives \<^verbatim>\<open>undefined\<close>, whose
  element read throws.
\<close>

definition center :: pos where
  "center = (BOARD_SIZE div 2, BOARD_SIZE div 2)"

definition place_ai :: "real \<Rightarrow> game \<Rightarrow> (error + unit) \<times> game" where
  "place_ai u g =
     (case read_cell (board g) (fst center) (snd center) of
        Inl e \<Rightarrow> (Inl e, g)
      | Inr c \<Rightarrow>
          if c = Some EMPTY then
            (case write_cell (board g) center (Piece AI) of
               Inl e \<Rightarrow> (Inl e, g)
             | Inr b \<Rightarrow> (Inr (), g\<lparr>board := b, aiPos := Some center\<rparr>))
          else
            (case getValidMoves (board g) (Some center) of
               Inl e \<Rightarrow> (Inl e, g)
             | Inr adjacentMoves \<Rightarrow>
                 if length adjacentMoves > 0 then
                   (let i = \<lfloor>u * real (length adjacentMoves)\<rfloor> in
                    if 0 \<le> i \<and> i < int (length adjacentMoves) then
                      (let randomMove = adjacentMoves ! nat i in
                       case write_cell (board g) randomMove (Piece AI) of
                         Inl e \<Rightarrow> (Inl e, g)
                       | Inr b \<Rightarrow> (Inr (), g\<lparr>board := b, aiPos := Some randomMove\<rparr>))
                    else (Inl TypeError, g))
                 else (Inr (), g)))"

definition placeStartingPosition_game :: "real \<Rightarrow> game \<Rightarrow> int \<Rightarrow> int \<Rightarrow> (error + unit) \<times> game" where
  "placeStartingPosition_game u g row col =
     (if gamePhase g \<noteq> starting then (Inl InvalidGameState, g)
      else
        (case read_cell (board g) row col of
           Inl e \<Rightarrow> (Inl e, g)
         | Inr c \<Rightarrow>
             if c \<noteq> Some EMPTY then (Inl PositionOccupied, g)
             else
               (case write_cell (board g) (row, col) (Piece HUMAN) of
                  Inl e \<Rightarrow> (Inl e, g)
                | Inr b \<Rightarrow>
                    (case place_ai u (g\<lparr>board := b, humanPos := Some (row, col)\<rparr>) of
                       (Inl e, g') \<Rightarrow> (Inl e, g')
                     | (Inr _, g') \<Rightarrow>
                         (Inr (), g'\<lparr>gamePhase := playing, currentPlayer := HUMAN\<rparr>)))))"

text \<open>
  \<open>makeHumanMove\<close>, for a session that was found. The call to the recorder at the end
  works on the recorder's own state (see the last section).
\<close>

definition makeHumanMove_game :: "game \<Rightarrow> int \<Rightarrow> int \<Rightarrow> (error + unit) \<times> game" where
  "makeHumanMove_game g row col =
     (if gamePhase g \<noteq> playing \<or> currentPlayer g \<noteq> HUMAN then (Inl InvalidMove, g)
      else
        (case getValidMoves (board g) (humanPos g) of
           Inl e \<Rightarrow> (Inl e, g)
         | Inr validMoves \<Rightarrow>
             if \<not> list_ex (\<lambda>move. fst move = row \<and> snd move = col) validMoves
             then (Inl InvalidMove, g)
             else
               (case movePlayer g HUMAN (Some (row, col)) False of
                  (Inl e, g') \<Rightarrow> (Inl e, g')
                | (Inr _, g') \<Rightarrow> (Inr (), g'\<lparr>currentPlayer := AI\<rparr>))))"

section \<open>Numbers\<close>

text \<open>
  A JavaScript number is a binary64 value. The model keeps a finite number as the real
  it denotes. The sum and the quotient of two numbers are the exact results rounded to
  the nearest binary64 value, a tie going to the even significand: \<open>scale_up\<close> and
  \<open>scale_down\<close> double or halve the magnitude \<open>y\<close>, together with the factor \<open>p\<close>
  applied so far, until it lies in [2^52, 2^53), and stop at the subnormal step
  2^-1074 and at the largest exponent; the scaled magnitude is then rounded to an
  integer. Infinity and NaN are not numbers of the model: the engine only adds
  evaluations to a running sum and divides by counts that are not 0.
\<close>

function scale_up :: "real \<Rightarrow> real \<Rightarrow> int \<Rightarrow> real \<times> real" where
  "scale_up y p e =
     (if y < 4503599627370496 \<and> -1074 < e then scale_up (2 * y) (2 * p) (e - 1) else (y, p))"
  by pat_completeness auto
termination by (relation "measure (\<lambda>(y, p, e). nat (e + 1074))") auto

function scale_down :: "real \<Rightarrow> real \<Rightarrow> int \<Rightarrow> real \<times> real" where
  "scale_down y p e =
     (if 9007199254740992 \<le> y \<and> e < 971 then scale_down (y / 2) (p / 2) (e + 1) else (y, p))"
  by pat_completeness auto
termination by (relation "measure (\<lambda>(y, p, e). nat (971 - e))") auto

definition round_even :: "real \<Rightarrow> int" where
  "round_even y =
     (let f = \<lfloor>y\<rfloor>; d = y - of_int f in
      if d < 1 / 2 then f else if 1 / 2 < d then f + 1 else if even f then f else f + 1)"

definition round64_pos :: "real \<Rightarrow> real" where
  "round64_pos x =
     (case (if x < 1 then scale_up (x * 4503599627370496) 4503599627370496 (-52)
            else scale_down (x * 4503599627370496) 4503599627370496 (-52)) of
        (y, p) \<Rightarrow> of_int (round_even y) / p)"

definition round64 :: "real \<Rightarrow> real" where
  "round64 x = (if x = 0 then 0 else if 0 < x then round64_pos x else - round64_pos (- x))"

text \<open>\<^verbatim>\<open>x + y\<close> and \<^verbatim>\<open>x / y\<close> on numbers.\<close>

definition add64 :: "real \<Rightarrow> real \<Rightarrow> real" where
  "add64 x y = round64 (x + y)"

definition div64 :: "real \<Rightarrow> real \<Rightarrow> real" where
  "div64 x y = round64 (x / y)"

section \<open>Position evaluation\<close>

definition all_cells :: "pos list" where
  "all_cells = concat (map (\<lambda>row. map (\<lambda>col. (row, col)) [0..BOARD_SIZE - 1]) [0..BOARD_SIZE - 1])"

text \<open>The two nested loops of \<open>heuristicEvaluation\<close> that look for the markers.\<close>

fun find_players :: "board \<Rightarrow> pos list \<Rightarrow> pos option \<times> pos option \<Rightarrow> error + pos option \<times> pos option" where
  "find_players b [] found = Inr found"
| "find_players b ((row, col) # rest) (hPos, aPos) =
     (case read_cell b row col of
        Inl e \<Rightarrow> Inl e
      | Inr c \<Rightarrow>
          find_players b rest
            (if c = Some (Piece HUMAN) then Some (row, col) else hPos,
             if c = Some (Piece AI) then Some (row, col) else aPos))"

definition count_moves :: "board \<Rightarrow> pos option \<Rightarrow> error + nat" where
  "count_moves b p =
     (case p of
        None \<Rightarrow> Inr 0
      | Some q \<Rightarrow> (case getValidMoves b (Some q) of Inl e \<Rightarrow> Inl e | Inr ms \<Rightarrow> Inr (length ms)))"

definition heuristicEvaluation :: "board \<Rightarrow> error + real" where
  "heuristicEvaluation b =
     (case find_players b all_cells (None, None) of
        Inl e \<Rightarrow> Inl e
      | Inr (hPos, aPos) \<Rightarrow>
          (case count_moves b hPos of
             Inl e \<Rightarrow> Inl e
           | Inr humanMoves \<Rightarrow>
               (case count_moves b aPos of
                  Inl e \<Rightarrow> Inl e
                | Inr aiMoves \<Rightarrow>
                    if aiMoves = 0 then Inr 0
                    else if humanMoves = 0 then Inr 1
                    else Inr (div64 (real aiMoves) (real (humanMoves + aiMoves))))))"

text \<open>
  What the learned strategy does on one call, as \<open>evaluatePosition\<close> sees it: the
  network is not loaded, or its promise resolves with a number before the 50 ms
  timer, or it rejects, or the timer wins the race.
\<close>

datatype nn_outcome = NotLoaded | Returns real | Throws | TimesOut

definition evaluatePosition :: "nn_outcome \<Rightarrow> board \<Rightarrow> error + real" where
  "evaluatePosition nn b =
     (case nn of
        NotLoaded \<Rightarrow> heuristicEvaluation b
      | Returns v \<Rightarrow> Inr v
      | Throws \<Rightarrow> heuristicEvaluation b
      | TimesOut \<Rightarrow> heuristicEvaluation b)"

section \<open>Move selection\<close>

text \<open>
  The environment of one selection: \<open>clock k\<close> is the value of the \<open>k\<close>-th call of
  \<^verbatim>\<open>Date.now()\<close>, \<open>nn k b\<close> is what the learned strategy does on evaluator call number
  \<open>k\<close> with board \<open>b\<close>. The two limits come from the process environment
  (\<open>None\<close>: the variable is unset or not a number).
\<close>

record config =
  AI_THINKING_TIME :: "int option"
  AI_SIMULATIONS :: "int option"

definition timeLimit :: "config \<Rightarrow> int" where
  "timeLimit cfg = (case AI_THINKING_TIME cfg of None \<Rightarrow> 500 | Some n \<Rightarrow> if n = 0 then 500 else n)"

definition maxSimulations :: "config \<Rightarrow> int" where
  "maxSimulations cfg = (case AI_SIMULATIONS cfg of None \<Rightarrow> 200 | Some n \<Rightarrow> if n = 0 then 200 else n)"

text \<open>
  The variables of one selection. Two fields are bookkeeping of the model, not
  variables of the source: \<open>ticks\<close> is the number of clock readings made so far, and
  \<open>evaluated\<close> lists the evaluator calls made so far, newest first, each with the number
  of the clock reading that came last before it, the candidate and the value returned.
\<close>

record mcts_state =
  scores :: "pos \<Rightarrow> real"
  visits :: "pos \<Rightarrow> nat"
  simulations :: nat
  ticks :: nat
  evaluated :: "(nat \<times> pos \<times> real) list"

text \<open>
  The tables are objects keyed by the JSON text of a move; only the keys set to 0 in
  the initial loop are ever read, so they are total functions here.
\<close>

definition init_state :: "pos list \<Rightarrow> mcts_state" where
  "init_state validMoves =
     fold (\<lambda>move s. s\<lparr>scores := (scores s)(move := 0), visits := (visits s)(move := 0)\<rparr>)
       validMoves \<lparr>scores = (\<lambda>_. 0), visits = (\<lambda>_. 0), simulations = 0, ticks = 1, evaluated = []\<rparr>"

text \<open>\<open>cloneGame\<close> copies the session; values are copies already.\<close>

definition cloneGame :: "game \<Rightarrow> game" where
  "cloneGame g = g"

definition simulate :: "(nat \<Rightarrow> board \<Rightarrow> nn_outcome) \<Rightarrow> game \<Rightarrow> pos \<Rightarrow> nat \<Rightarrow> error + real" where
  "simulate nn g move k =
     (case movePlayer (cloneGame g) AI (Some move) True of
        (Inl e, simGame) \<Rightarrow> Inl e
      | (Inr _, simGame) \<Rightarrow> evaluatePosition (nn k (board simGame)) (board simGame))"

text \<open>One round: the \<^verbatim>\<open>for\<close> loop over the candidates, left when the deadline has passed.\<close>

fun mcts_round :: "(nat \<Rightarrow> int) \<Rightarrow> (nat \<Rightarrow> board \<Rightarrow> nn_outcome) \<Rightarrow> int \<Rightarrow> int \<Rightarrow> game \<Rightarrow>
    pos list \<Rightarrow> mcts_state \<Rightarrow> (error + unit) \<times> mcts_state" where
  "mcts_round clock nn startTime limit g [] s = (Inr (), s)"
| "mcts_round clock nn startTime limit g (move # rest) s =
     (case simulate nn g move (simulations s) of
        Inl e \<Rightarrow> (Inl e, s)
      | Inr evaluation \<Rightarrow>
          (let s1 = s\<lparr>scores := (scores s)(move := add64 (scores s move) evaluation),
                      visits := (visits s)(move := visits s move + 1),
                      simulations := simulations s + 1,
                      evaluated := (ticks s - 1, move, evaluation) # evaluated s\<rparr>;
               now = clock (ticks s1);
               s2 = s1\<lparr>ticks := ticks s1 + 1\<rparr>
           in if now - startTime \<ge> limit then (Inr (), s2)
              else mcts_round clock nn startTime limit g rest s2))"

text \<open>
  The \<^verbatim>\<open>while\<close> loop. With an empty candidate list it ends only when the clock
  passes the deadline, so it is a partial function: \<open>None\<close> means it never returns.
\<close>

partial_function (option) mcts_while :: "(nat \<Rightarrow> int) \<Rightarrow> (nat \<Rightarrow> board \<Rightarrow> nn_outcome) \<Rightarrow> int \<Rightarrow> int \<Rightarrow>
    int \<Rightarrow> game \<Rightarrow> pos list \<Rightarrow> mcts_state \<Rightarrow> ((error + unit) \<times> mcts_state) option" where
  "mcts_while clock nn startTime limit maxSim g validMoves s =
     (let now = clock (ticks s); s1 = s\<lparr>ticks := ticks s + 1\<rparr> in
      if now - startTime < limit \<and> int (simulations s1) < maxSim then
        (case mcts_round clock nn startTime limit g validMoves s1 of
           (Inl e, s2) \<Rightarrow> Some (Inl e, s2)
         | (Inr _, s2) \<Rightarrow>
             if int (simulations s2) \<ge> maxSim then Some (Inr (), s2)
             else mcts_while clock nn startTime limit maxSim g validMoves s2)
      else Some (Inr (), s1))"

declare mcts_while.simps [code]

definition winRate :: "mcts_state \<Rightarrow> pos \<Rightarrow> real" where
  "winRate s move = (if visits s move > 0 then div64 (scores s move) (real (visits s move)) else 0)"

fun select_best :: "mcts_state \<Rightarrow> pos list \<Rightarrow> pos option \<times> real \<Rightarrow> pos option \<times> real" where
  "select_best s [] best = best"
| "select_best s (move # rest) (bestMove, bestScore) =
     (if winRate s move > bestScore then select_best s rest (Some move, winRate s move)
      else select_best s rest (bestMove, bestScore))"

definition first_move :: "pos list \<Rightarrow> pos option" where
  "first_move validMoves = (case validMoves of [] \<Rightarrow> None | move # _ \<Rightarrow> Some move)"

text \<open>
  \<open>enhancedMCTS\<close> returns the chosen move (\<^verbatim>\<open>undefined\<close> for an empty candidate list);
  the model returns the final tables and counters with it. The session passed in is
  never changed: every simulation works on a clone.
\<close>

definition enhancedMCTS :: "config \<Rightarrow> (nat \<Rightarrow> int) \<Rightarrow> (nat \<Rightarrow> board \<Rightarrow> nn_outcome) \<Rightarrow> game \<Rightarrow>
    pos list \<Rightarrow> ((error + pos option) \<times> mcts_state) option" where
  "enhancedMCTS cfg clock nn g validMoves =
     (let startTime = clock 0 in
      case mcts_while clock nn startTime (timeLimit cfg) (maxSimulations cfg) g validMoves
             (init_state validMoves) of
        None \<Rightarrow> None
      | Some (Inl e, s) \<Rightarrow> Some (Inl e, s)
      | Some (Inr _, s) \<Rightarrow>
          Some (Inr (fst (select_best s validMoves (first_move validMoves, 0))), s))"

definition makeAIMove_game :: "config \<Rightarrow> (nat \<Rightarrow> int) \<Rightarrow> (nat \<Rightarrow> board \<Rightarrow> nn_outcome) \<Rightarrow> game \<Rightarrow>
    ((error + unit) \<times> game) option" where
  "makeAIMove_game cfg clock nn g =
     (if gamePhase g \<noteq> playing \<or> currentPlayer g \<noteq> AI then Some (Inl InvalidAIMove, g)
      else
        (case getValidMoves (board g) (aiPos g) of
           Inl e \<Rightarrow> Some (Inl e, g)
         | Inr validMoves \<Rightarrow>
             if length validMoves = 0 then Some (Inr (), endGame g HUMAN)
             else
               (case enhancedMCTS cfg clock nn g validMoves of
                  None \<Rightarrow> None
                | Some (Inl e, s) \<Rightarrow> Some (Inl e, g)
                | Some (Inr bestMove, s) \<Rightarrow>
                    (case movePlayer g AI bestMove False of
                       (Inl e, g') \<Rightarrow> Some (Inl e, g')
                     | (Inr _, g') \<Rightarrow> Some (Inr (), g'\<lparr>currentPlayer := HUMAN\<rparr>)))))"

section \<open>Undo\<close>

text \<open>The backwards search for the last record of the human player; \<open>-1\<close> when there is none.\<close>

fun lastHumanMoveIndex :: "move_record list \<Rightarrow> nat \<Rightarrow> int" where
  "lastHumanMoveIndex h 0 = -1"
| "lastHumanMoveIndex h (Suc i) =
     (if mv_player (h ! i) = HUMAN then int i else lastHumanMoveIndex h i)"

text \<open>\<^verbatim>\<open>pop()\<close> removes the last element and does nothing on an empty array.\<close>

definition pop :: "'a list \<Rightarrow> 'a list" where
  "pop xs = butlast xs"

fun pop_times :: "nat \<Rightarrow> 'a list \<Rightarrow> 'a list" where
  "pop_times 0 xs = xs"
| "pop_times (Suc n) xs = pop_times n (pop xs)"

definition undoLastMove_game :: "game \<Rightarrow> (error + unit) \<times> game" where
  "undoLastMove_game g =
     (if gamePhase g = ended then (Inl CannotUndoEnded, g)
      else if length (moveHistory g) = 0 then (Inl NoMovesToUndo, g)
      else
        (let idx = lastHumanMoveIndex (moveHistory g) (length (moveHistory g)) in
         if idx = -1 then (Inl NoHumanMovesToUndo, g)
         else
           (let lastHumanMove = moveHistory g ! nat idx;
                movesToRemove = int (length (moveHistory g)) - idx;
                g1 = g\<lparr>moveHistory := pop (pop_times (nat movesToRemove) (moveHistory g))\<rparr>
            in if length (moveHistory g1) = 0 then
                 (Inr (), g1\<lparr>gamePhase := starting, currentPlayer := HUMAN, humanPos := None,
                            aiPos := None, winner := None, board := initializeBoard\<rparr>)
               else
                 (case write_cell (board g1) (mv_to lastHumanMove) EMPTY of
                    Inl e \<Rightarrow> (Inl e, g1)
                  | Inr b1 \<Rightarrow>
                      (case (case mv_from lastHumanMove of
                               None \<Rightarrow> Inr b1
                             | Some src \<Rightarrow> write_cell b1 src (Piece (mv_player lastHumanMove))) of
                         Inl e \<Rightarrow> (Inl e, g1\<lparr>board := b1\<rparr>)
                       | Inr b2 \<Rightarrow>
                           (Inr (), g1\<lparr>board := b2, humanPos := mv_from lastHumanMove,
                                      currentPlayer := HUMAN\<rparr>))))))"

text \<open>The record that \<open>undoLastMove\<close> reverts on the board, when there is one.\<close>

definition lastHumanMove :: "game \<Rightarrow> move_record" where
  "lastHumanMove g =
     moveHistory g ! nat (lastHumanMoveIndex (moveHistory g) (length (moveHistory g)))"

section \<open>The session store\<close>

text \<open>
  The public operations look the session up in \<open>activeGames\<close> and work on the object
  found there, so whatever they did to it before throwing stays in the store.
\<close>

definition on_session :: "activeGames \<Rightarrow> gameId \<Rightarrow> error \<Rightarrow> (game \<Rightarrow> (error + unit) \<times> game) \<Rightarrow>
    (error + game) \<times> activeGames" where
  "on_session games gid missing f =
     (case games gid of
        None \<Rightarrow> (Inl missing, games)
      | Some g \<Rightarrow>
          (case f g of
             (Inl e, g') \<Rightarrow> (Inl e, games(gid \<mapsto> g'))
           | (Inr _, g') \<Rightarrow> (Inr g', games(gid \<mapsto> g'))))"

definition placeStartingPosition :: "real \<Rightarrow> activeGames \<Rightarrow> gameId \<Rightarrow> int \<Rightarrow> int \<Rightarrow> (error + game) \<times> activeGames" where
  "placeStartingPosition u games gid row col =
     on_session games gid InvalidGameState (\<lambda>g. placeStartingPosition_game u g row col)"

definition makeHumanMove :: "activeGames \<Rightarrow> gameId \<Rightarrow> int \<Rightarrow> int \<Rightarrow> (error + game) \<times> activeGames" where
  "makeHumanMove games gid row col =
     on_session games gid InvalidMove (\<lambda>g. makeHumanMove_game g row col)"

definition makeAIMove :: "config \<Rightarrow> (nat \<Rightarrow> int) \<Rightarrow> (nat \<Rightarrow> board \<Rightarrow> nn_outcome) \<Rightarrow> activeGames \<Rightarrow> gameId \<Rightarrow>
    ((error + game) \<times> activeGames) option" where
  "makeAIMove cfg clock nn games gid =
     (case games gid of
        None \<Rightarrow> Some (Inl InvalidAIMove, games)
      | Some g \<Rightarrow>
          (case makeAIMove_game cfg clock nn g of
             None \<Rightarrow> None
           | Some (Inl e, g') \<Rightarrow> Some (Inl e, games(gid \<mapsto> g'))
           | Some (Inr _, g') \<Rightarrow> Some (Inr g', games(gid \<mapsto> g'))))"

definition undoLastMove :: "activeGames \<Rightarrow> gameId \<Rightarrow> (error + game) \<times> activeGames" where
  "undoLastMove games gid = on_session games gid GameNotFound undoLastMove_game"

section \<open>Well-formed boards\<close>

text \<open>A board as the data model has it: seven rows of seven cells.\<close>

definition wf_board :: "board \<Rightarrow> bool" where
  "wf_board b \<longleftrightarrow> length b = 7 \<and> list_all (\<lambda>row. length row = 7) b"

definition in_bounds :: "pos \<Rightarrow> bool" where
  "in_bounds p \<longleftrightarrow> isValidPosition (fst p) (snd p)"

text \<open>
  A well-formed session, as the operations produce it from \<open>createGame\<close>: a 7 x 7
  board; before the placement an empty board and no positions; afterwards both
  positions on the grid; every move record with its source and destination on the grid.
\<close>

definition pos_ok :: "pos option \<Rightarrow> bool" where
  "pos_ok p = (case p of None \<Rightarrow> False | Some q \<Rightarrow> in_bounds q)"

definition wf_record :: "move_record \<Rightarrow> bool" where
  "wf_record m \<longleftrightarrow> in_bounds (mv_to m) \<and> pos_ok (mv_from m)"

definition wf_game :: "game \<Rightarrow> bool" where
  "wf_game g \<longleftrightarrow>
     wf_board (board g) \<and>
     (if gamePhase g = starting
      then board g = initializeBoard \<and> humanPos g = None \<and> aiPos g = None
      else pos_ok (humanPos g) \<and> pos_ok (aiPos g)) \<and>
     list_all wf_record (moveHistory g)"

definition open_cell :: "board \<Rightarrow> pos \<Rightarrow> bool" where
  "open_cell b q \<longleftrightarrow> isValidPosition (fst q) (snd q) \<and> read_cell b (fst q) (snd q) = Inr (Some EMPTY)"

definition shift :: "pos \<Rightarrow> int \<times> int \<Rightarrow> pos" where
  "shift p d = (fst p + fst d, snd p + snd d)"

definition moved :: "game \<Rightarrow> player \<Rightarrow> pos \<Rightarrow> board \<Rightarrow> game" where
  "moved g p new b =
     (if p = HUMAN then g\<lparr>board := b, humanPos := Some new\<rparr>
      else g\<lparr>board := b, aiPos := Some new\<rparr>)
     \<lparr>moveHistory := moveHistory g @
        [\<lparr>mv_player = p, mv_from = (if p = HUMAN then humanPos g else aiPos g),
          mv_to = new, mv_board = b\<rparr>]\<rparr>"

definition no_moves :: "game \<Rightarrow> player \<Rightarrow> bool" where
  "no_moves g p \<longleftrightarrow> getValidMoves (board g) (if p = HUMAN then humanPos g else aiPos g) = Inr []"

definition end_rule :: "game \<Rightarrow> game \<Rightarrow> bool" where
  "end_rule g g' \<longleftrightarrow>
     (gamePhase g' = ended \<longleftrightarrow> no_moves g' HUMAN \<or> no_moves g' AI) \<and>
     (gamePhase g' \<noteq> ended \<longrightarrow> gamePhase g' = playing \<and> winner g' = winner g) \<and>
     (no_moves g' HUMAN \<longrightarrow> winner g' = Some AI) \<and>
     (\<not> no_moves g' HUMAN \<and> no_moves g' AI \<longrightarrow> winner g' = Some HUMAN)"

section \<open>Example sessions\<close>

text \<open>
  Two short plays, written with the engine's own cell characters. The software agent
  moves under a cap of one round, a clock that does not advance and a learned strategy
  that answers 1/2 on every call, so it takes its first candidate.
\<close>

definition cell_of :: "char \<Rightarrow> cell" where
  "cell_of ch =
     (if ch = CHR ''.'' then EMPTY else if ch = CHR ''_'' then BLOCKED
      else if ch = CHR ''H'' then Piece HUMAN else Piece AI)"

definition board_of :: "string list \<Rightarrow> board" where
  "board_of rows = map (map cell_of) rows"

definition demo_cfg :: config where
  "demo_cfg = \<lparr>AI_THINKING_TIME = None, AI_SIMULATIONS = Some 1\<rparr>"

definition default_cfg :: config where
  "default_cfg = \<lparr>AI_THINKING_TIME = None, AI_SIMULATIONS = None\<rparr>"

definition still_clock :: "nat \<Rightarrow> int" where
  "still_clock k = 0"

definition level_net :: "nat \<Rightarrow> board \<Rightarrow> nn_outcome" where
  "level_net k b = Returns (1 / 2)"

definition demo1 :: game where
  "demo1 =
   \<lparr>board = board_of [''.......'', ''.H.....'', ''.......'', ''...A...'', ''.......'', ''.......'', ''.......''],
     humanPos = Some (1, 1), aiPos = Some (3, 3), currentPlayer = HUMAN, gamePhase = playing,
     moveHistory =
       [],
     winner = None\<rparr>"

definition demo2 :: game where
  "demo2 =
   \<lparr>board = board_of [''.......'', ''._.....'', ''..H....'', ''...A...'', ''.......'', ''.......'', ''.......''],
     humanPos = Some (2, 2), aiPos = Some (3, 3), currentPlayer = AI, gamePhase = playing,
     moveHistory =
       [\<lparr>mv_player = HUMAN, mv_from = Some (1, 1), mv_to = (2, 2),
          mv_board = board_of [''.......'', ''._.....'', ''..H....'', ''...A...'', ''.......'', ''.......'', ''.......'']\<rparr>],
     winner = None\<rparr>"

definition demo3 :: game where
  "demo3 =
   \<lparr>board = board_of [''.......'', ''._.....'', ''..HA...'', ''..._...'', ''.......'', ''.......'', ''.......''],
     humanPos = Some (2, 2), aiPos = Some (2, 3), currentPlayer = HUMAN, gamePhase = playing,
     moveHistory =
       [\<lparr>mv_player = HUMAN, mv_from = Some (1, 1), mv_to = (2, 2),
          mv_board = board_of [''.......'', ''._.....'', ''..H....'', ''...A...'', ''.......'', ''.......'', ''.......'']\<rparr>,
        \<lparr>mv_player = AI, mv_from = Some (3, 3), mv_to = (2, 3),
          mv_board = board_of [''.......'', ''._.....'', ''..HA...'', ''..._...'', ''.......'', ''.......'', ''.......'']\<rparr>],
     winner = None\<rparr>"

definition demo4 :: game where
  "demo4 =
   \<lparr>board = board_of [''.......'', ''._.....'', ''.._A...'', ''..H_...'', ''.......'', ''.......'', ''.......''],
     humanPos = Some (3, 2), aiPos = Some (2, 3), currentPlayer = AI, gamePhase = playing,
     moveHistory =
       [\<lparr>mv_player = HUMAN, mv_from = Some (1, 1), mv_to = (2, 2),
          mv_board = board_of [''.......'', ''._.....'', ''..H....'', ''...A...'', ''.......'', ''.......'', ''.......'']\<rparr>,
        \<lparr>mv_player = AI, mv_from = Some (3, 3), mv_to = (2, 3),
          mv_board = board_of [''.......'', ''._.....'', ''..HA...'', ''..._...'', ''.......'', ''.......'', ''.......'']\<rparr>,
        \<lparr>mv_player = HUMAN, mv_from = Some (2, 2), mv_to = (3, 2),
          mv_board = board_of [''.......'', ''._.....'', ''.._A...'', ''..H_...'', ''.......'', ''.......'', ''.......'']\<rparr>],
     winner = None\<rparr>"

definition demo5 :: game where
  "demo5 =
   \<lparr>board = board_of [''.......'', ''._.A...'', ''..__...'', ''..H_...'', ''.......'', ''.......'', ''.......''],
     humanPos = Some (3, 2), aiPos = Some (1, 3), currentPlayer = HUMAN, gamePhase = playing,
     moveHistory =
       [\<lparr>mv_player = HUMAN, mv_from = Some (1, 1), mv_to = (2, 2),
          mv_board = board_of [''.......'', ''._.....'', ''..H....'', ''...A...'', ''.......'', ''.......'', ''.......'']\<rparr>,
        \<lparr>mv_player = AI, mv_from = Some (3, 3), mv_to = (2, 3),
          mv_board = board_of [''.......'', ''._.....'', ''..HA...'', ''..._...'', ''.......'', ''.......'', ''.......'']\<rparr>,
        \<lparr>mv_player = HUMAN, mv_from = Some (2, 2), mv_to = (3, 2),
          mv_board = board_of [''.......'', ''._.....'', ''.._A...'', ''..H_...'', ''.......'', ''.......'', ''.......'']\<rparr>,
        \<lparr>mv_player = AI, mv_from = Some (2, 3), mv_to = (1, 3),
          mv_board = board_of [''.......'', ''._.A...'', ''..__...'', ''..H_...'', ''.......'', ''.......'', ''.......'']\<rparr>],
     winner = None\<rparr>"

definition demo6 :: game where
  "demo6 =
   \<lparr>board = board_of [''.......'', ''._.A...'', ''..H_...'', ''..._...'', ''.......'', ''.......'', ''.......''],
     humanPos = Some (2, 2), aiPos = Some (1, 3), currentPlayer = HUMAN, gamePhase = playing,
     moveHistory =
       [\<lparr>mv_player = HUMAN, mv_from = Some (1, 1), mv_to = (2, 2),
          mv_board = board_of [''.......'', ''._.....'', ''..H....'', ''...A...'', ''.......'', ''.......'', ''.......'']\<rparr>],
     winner = None\<rparr>"

definition demo4_undone :: game where
  "demo4_undone =
   \<lparr>board = board_of [''.......'', ''._.....'', ''..HA...'', ''..._...'', ''.......'', ''.......'', ''.......''],
     humanPos = Some (2, 2), aiPos = Some (2, 3), currentPlayer = HUMAN, gamePhase = playing,
     moveHistory =
       [\<lparr>mv_player = HUMAN, mv_from = Some (1, 1), mv_to = (2, 2),
          mv_board = board_of [''.......'', ''._.....'', ''..H....'', ''...A...'', ''.......'', ''.......'', ''.......'']\<rparr>],
     winner = None\<rparr>"

definition trap1 :: game where
  "trap1 =
   \<lparr>board = board_of [''.......'', ''H......'', ''.......'', ''...A...'', ''.......'', ''.......'', ''.......''],
     humanPos = Some (1, 0), aiPos = Some (3, 3), currentPlayer = HUMAN, gamePhase = playing,
     moveHistory =
       [],
     winner = None\<rparr>"

definition trap2 :: game where
  "trap2 =
   \<lparr>board = board_of [''.......'', ''_H.....'', ''.......'', ''...A...'', ''.......'', ''.......'', ''.......''],
     humanPos = Some (1, 1), aiPos = Some (3, 3), currentPlayer = AI, gamePhase = playing,
     moveHistory =
       [\<lparr>mv_player = HUMAN, mv_from = Some (1, 0), mv_to = (1, 1),
          mv_board = board_of [''.......'', ''_H.....'', ''.......'', ''...A...'', ''.......'', ''.......'', ''.......'']\<rparr>],
     winner = None\<rparr>"

definition trap3 :: game where
  "trap3 =
   \<lparr>board = board_of [''.......'', ''_H.....'', ''...A...'', ''..._...'', ''.......'', ''.......'', ''.......''],
     humanPos = Some (1, 1), aiPos = Some (2, 3), currentPlayer = HUMAN, gamePhase = playing,
     moveHistory =
       [\<lparr>mv_player = HUMAN, mv_from = Some (1, 0), mv_to = (1, 1),
          mv_board = board_of [''.......'', ''_H.....'', ''.......'', ''...A...'', ''.......'', ''.......'', ''.......'']\<rparr>,
        \<lparr>mv_player = AI, mv_from = Some (3, 3), mv_to = (2, 3),
          mv_board = board_of [''.......'', ''_H.....'', ''...A...'', ''..._...'', ''.......'', ''.......'', ''.......'']\<rparr>],
     winner = None\<rparr>"

definition trap4 :: game where
  "trap4 =
   \<lparr>board = board_of [''.H.....'', ''__.....'', ''...A...'', ''..._...'', ''.......'', ''.......'', ''.......''],
     humanPos = Some (0, 1), aiPos = Some (2, 3), currentPlayer = AI, gamePhase = playing,
     moveHistory =
       [\<lparr>mv_player = HUMAN, mv_from = Some (1, 0), mv_to = (1, 1),
          mv_board = board_of [''.......'', ''_H.....'', ''.......'', ''...A...'', ''.......'', ''.......'', ''.......'']\<rparr>,
        \<lparr>mv_player = AI, mv_from = Some (3, 3), mv_to = (2, 3),
          mv_board = board_of [''.......'', ''_H.....'', ''...A...'', ''..._...'', ''.......'', ''.......'', ''.......'']\<rparr>,
        \<lparr>mv_player = HUMAN, mv_from = Some (1, 1), mv_to = (0, 1),
          mv_board = board_of [''.H.....'', ''__.....'', ''...A...'', ''..._...'', ''.......'', ''.......'', ''.......'']\<rparr>],
     winner = None\<rparr>"

definition trap5 :: game where
  "trap5 =
   \<lparr>board = board_of [''.H.....'', ''__.A...'', ''..._...'', ''..._...'', ''.......'', ''.......'', ''.......''],
     humanPos = Some (0, 1), aiPos = Some (1, 3), currentPlayer = HUMAN, gamePhase = playing,
     moveHistory =
       [\<lparr>mv_player = HUMAN, mv_from = Some (1, 0), mv_to = (1, 1),
          mv_board = board_of [''.......'', ''_H.....'', ''.......'', ''...A...'', ''.......'', ''.......'', ''.......'']\<rparr>,
        \<lparr>mv_player = AI, mv_from = Some (3, 3), mv_to = (2, 3),
          mv_board = board_of [''.......'', ''_H.....'', ''...A...'', ''..._...'', ''.......'', ''.......'', ''.......'']\<rparr>,
        \<lparr>mv_player = HUMAN, mv_from = Some (1, 1), mv_to = (0, 1),
          mv_board = board_of [''.H.....'', ''__.....'', ''...A...'', ''..._...'', ''.......'', ''.......'', ''.......'']\<rparr>,
        \<lparr>mv_player = AI, mv_from = Some (2, 3), mv_to = (1, 3),
          mv_board = board_of [''.H.....'', ''__.A...'', ''..._...'', ''..._...'', ''.......'', ''.......'', ''.......'']\<rparr>],
     winner = None\<rparr>"

definition trap6 :: game where
  "trap6 =
   \<lparr>board = board_of [''H_.....'', ''__.A...'', ''..._...'', ''..._...'', ''.......'', ''.......'', ''.......''],
     humanPos = Some (0, 0), aiPos = Some (1, 3), currentPlayer = AI, gamePhase = ended,
     moveHistory =
       [\<lparr>mv_player = HUMAN, mv_from = Some (1, 0), mv_to = (1, 1),
          mv_board = board_of [''.......'', ''_H.....'', ''.......'', ''...A...'', ''.......'', ''.......'', ''.......'']\<rparr>,
        \<lparr>mv_player = AI, mv_from = Some (3, 3), mv_to = (2, 3),
          mv_board = board_of [''.......'', ''_H.....'', ''...A...'', ''..._...'', ''.......'', ''.......'', ''.......'']\<rparr>,
        \<lparr>mv_player = HUMAN, mv_from = Some (1, 1), mv_to = (0, 1),
          mv_board = board_of [''.H.....'', ''__.....'', ''...A...'', ''..._...'', ''.......'', ''.......'', ''.......'']\<rparr>,
        \<lparr>mv_player = AI, mv_from = Some (2, 3), mv_to = (1, 3),
          mv_board = board_of [''.H.....'', ''__.A...'', ''..._...'', ''..._...'', ''.......'', ''.......'', ''.......'']\<rparr>,
        \<lparr>mv_player = HUMAN, mv_from = Some (0, 1), mv_to = (0, 0),
          mv_board = board_of [''H_.....'', ''__.A...'', ''..._...'', ''..._...'', ''.......'', ''.......'', ''.......'']\<rparr>],
     winner = Some AI\<rparr>"

section \<open>Experience recorder (ExperienceReplay.js)\<close>

text \<open>
  The recorder keeps a bounded buffer of observations and frequency tables. The keys
  of the tables are strings built from the coordinates (\<^verbatim>\<open>'2,3'\<close>, \<^verbatim>\<open>'trap_2,3'\<close>,
  \<^verbatim>\<open>'opening_2_2,3'\<close>); the model keeps the values the strings are built from. The
  timestamp of an observation is left out.
\<close>

datatype stage = Opening | Midgame | Endgame

record experience =
  exp_gameId :: gameId
  exp_player :: player
  exp_move :: pos
  exp_board :: board
  exp_phase :: stage

record recorder =
  experienceBuffer :: "experience list"
  startingPositions :: "pos \<rightharpoonup> nat"
  movePreferences :: "stage \<times> int \<times> pos \<rightharpoonup> nat"
  trapAttempts :: "pos \<rightharpoonup> nat"

definition maxBufferSize :: nat where
  "maxBufferSize = 10000"

definition newRecorder :: recorder where
  "newRecorder = \<lparr>experienceBuffer = [], startingPositions = Map.empty,
     movePreferences = Map.empty, trapAttempts = Map.empty\<rparr>"

fun count_cells :: "board \<Rightarrow> (cell option \<Rightarrow> bool) \<Rightarrow> pos list \<Rightarrow> nat \<Rightarrow> error + nat" where
  "count_cells b P [] n = Inr n"
| "count_cells b P ((row, col) # rest) n =
     (case read_cell b row col of
        Inl e \<Rightarrow> Inl e
      | Inr c \<Rightarrow> count_cells b P rest (if P c then n + 1 else n))"

definition determineGamePhase :: "board \<Rightarrow> error + stage" where
  "determineGamePhase b =
     (case count_cells b (\<lambda>c. c = Some BLOCKED) all_cells 0 of
        Inl e \<Rightarrow> Inl e
      | Inr blockedCells \<Rightarrow>
          (let totalCells = 49;
               blockedPercentage = (real blockedCells / totalCells) * 100
           in if blockedPercentage < 20 then Inr Opening
              else if blockedPercentage < 60 then Inr Midgame
              else Inr Endgame))"

definition isStartingMove :: "pos \<Rightarrow> board \<Rightarrow> error + bool" where
  "isStartingMove move b =
     (case count_cells b (\<lambda>c. c = Some (Piece HUMAN) \<or> c = Some (Piece AI)) all_cells 0 of
        Inl e \<Rightarrow> Inl e
      | Inr pieceCount \<Rightarrow> Inr (pieceCount \<le> 2))"

definition encodeMovePattern :: "pos \<Rightarrow> board \<Rightarrow> error + stage \<times> int \<times> pos" where
  "encodeMovePattern move b =
     (let centerDistance = \<bar>fst move - 3\<bar> + \<bar>snd move - 3\<bar> in
      case determineGamePhase b of
        Inl e \<Rightarrow> Inl e
      | Inr phase \<Rightarrow> Inr (phase, centerDistance, move))"

definition isEdge :: "pos \<Rightarrow> bool" where
  "isEdge move \<longleftrightarrow> fst move = 0 \<or> fst move = 6 \<or> snd move = 0 \<or> snd move = 6"

fun isTrapAttempt_loop :: "board \<Rightarrow> pos \<Rightarrow> pos list \<Rightarrow> error + bool" where
  "isTrapAttempt_loop b move [] = Inr False"
| "isTrapAttempt_loop b move ((r, c) # rest) =
     (case read_cell b r c of
        Inl e \<Rightarrow> Inl e
      | Inr x \<Rightarrow>
          if x = Some (Piece AI) then
            (let distance = \<bar>fst move - r\<bar> + \<bar>snd move - c\<bar> in
             if distance \<le> 2 then Inr True else isTrapAttempt_loop b move rest)
          else isTrapAttempt_loop b move rest)"

definition isTrapAttempt :: "pos \<Rightarrow> board \<Rightarrow> error + bool" where
  "isTrapAttempt move b = (let edge = isEdge move in isTrapAttempt_loop b move all_cells)"

definition encodeTrapPattern :: "pos \<Rightarrow> board \<Rightarrow> pos" where
  "encodeTrapPattern move b = move"

text \<open>\<^verbatim>\<open>table.set(key, (table.get(key) || 0) + 1)\<close>\<close>

definition get_or_zero :: "('key \<Rightarrow> nat option) \<Rightarrow> 'key \<Rightarrow> nat" where
  "get_or_zero table key = (case table key of Some n \<Rightarrow> n | None \<Rightarrow> 0)"

definition increment :: "'key \<Rightarrow> ('key \<Rightarrow> nat option) \<Rightarrow> ('key \<Rightarrow> nat option)" where
  "increment key table = table(key \<mapsto> get_or_zero table key + 1)"

definition analyzeHumanPattern :: "experience \<Rightarrow> recorder \<Rightarrow> (error + unit) \<times> recorder" where
  "analyzeHumanPattern x rc =
     (if exp_player x \<noteq> HUMAN then (Inr (), rc)
      else
        (case (if exp_phase x = Opening then isStartingMove (exp_move x) (exp_board x)
               else Inr False) of
           Inl e \<Rightarrow> (Inl e, rc)
         | Inr start \<Rightarrow>
             (let rc1 = (if start
                         then rc\<lparr>startingPositions := increment (exp_move x) (startingPositions rc)\<rparr>
                         else rc)
              in case encodeMovePattern (exp_move x) (exp_board x) of
                   Inl e \<Rightarrow> (Inl e, rc1)
                 | Inr moveKey \<Rightarrow>
                     (let rc2 = rc1\<lparr>movePreferences := increment moveKey (movePreferences rc1)\<rparr>
                      in case isTrapAttempt (exp_move x) (exp_board x) of
                           Inl e \<Rightarrow> (Inl e, rc2)
                         | Inr trap \<Rightarrow>
                             if trap then
                               (Inr (), rc2\<lparr>trapAttempts := increment
                                  (encodeTrapPattern (exp_move x) (exp_board x)) (trapAttempts rc2)\<rparr>)
                             else (Inr (), rc2)))))"

definition recordMove :: "recorder \<Rightarrow> gameId \<Rightarrow> player \<Rightarrow> pos \<Rightarrow> board \<Rightarrow> (error + unit) \<times> recorder" where
  "recordMove rc gid p move b =
     (case determineGamePhase b of
        Inl e \<Rightarrow> (Inl e, rc)
      | Inr phase \<Rightarrow>
          (let x = \<lparr>exp_gameId = gid, exp_player = p, exp_move = move, exp_board = b,
                    exp_phase = phase\<rparr>;
               pushed = experienceBuffer rc @ [x];
               rc1 = rc\<lparr>experienceBuffer :=
                      (if length pushed > maxBufferSize then tl pushed else pushed)\<rparr>
           in if p = HUMAN then analyzeHumanPattern x rc1 else (Inr (), rc1)))"

section \<open>Auxiliary notions for the proofs\<close>

definition credit :: "mcts_state \<Rightarrow> pos \<Rightarrow> real \<Rightarrow> mcts_state" where
  "credit s move v =
     s\<lparr>scores := (scores s)(move := add64 (scores s move) v),
       visits := (visits s)(move := visits s move + 1),
       simulations := simulations s + 1,
       evaluated := (ticks s - 1, move, v) # evaluated s,
       ticks := ticks s + 1\<rparr>"

definition early_readings :: "(nat \<Rightarrow> int) \<Rightarrow> int \<Rightarrow> nat \<Rightarrow> nat" where
  "early_readings clock limit n = length (filter (\<lambda>t. clock t - clock 0 < limit) [1..<n])"

definition within_budget :: "config \<Rightarrow> (nat \<Rightarrow> int) \<Rightarrow> nat \<Rightarrow> mcts_state \<Rightarrow> bool" where
  "within_budget cfg clock n s \<longleftrightarrow>
     (simulations s = 0 \<or> int (simulations s) < maxSimulations cfg + int n) \<and>
     simulations s \<le> early_readings clock (timeLimit cfg) (ticks s)"

definition first_best :: "mcts_state \<Rightarrow> pos list \<Rightarrow> nat \<Rightarrow> bool" where
  "first_best s ms i \<longleftrightarrow>
     i < length ms \<and>
     (\<forall>j < length ms. winRate s (ms ! j) \<le> winRate s (ms ! i)) \<and>
     (\<forall>j < i. winRate s (ms ! j) < winRate s (ms ! i))"

text \<open>
  The mean score of a candidate in the words of the specification: the running sum
  divided by the visit count, 0 for a candidate without visits.
\<close>

definition spec_mean :: "mcts_state \<Rightarrow> pos \<Rightarrow> real" where
  "spec_mean s move = (if visits s move = 0 then 0 else div64 (scores s move) (real (visits s move)))"

text \<open>The running sum and the number of the recorded evaluations of one candidate.\<close>

definition tally :: "pos \<Rightarrow> (nat \<times> pos \<times> real) list \<Rightarrow> real" where
  "tally move entries = foldr (\<lambda>(t, m, v) acc. if m = move then add64 acc v else acc) entries 0"

definition count_of :: "pos \<Rightarrow> (nat \<times> pos \<times> real) list \<Rightarrow> nat" where
  "count_of move entries = length (filter (\<lambda>(t, m, v). m = move) entries)"

text \<open>
  What holds of the recorded evaluations at any moment: one per count, each after a
  clock reading of its own, later than the start and before the deadline, and each of
  a candidate.
\<close>

definition log_ok :: "(nat \<Rightarrow> int) \<Rightarrow> int \<Rightarrow> pos list \<Rightarrow> mcts_state \<Rightarrow> bool" where
  "log_ok clock limit ms s \<longleftrightarrow>
     length (evaluated s) = simulations s \<and>
     distinct (map fst (evaluated s)) \<and>
     (\<forall>(t, move, v) \<in> set (evaluated s).
        0 < t \<and> t + 1 < ticks s \<and> clock t - clock 0 < limit \<and> move \<in> set ms)"

text \<open>
  A clock that shows the start time up to reading 25 (the start being reading 0) and is
  past the default deadline from reading 26 on, and a learned strategy that answers
  the number nearest to 0.1 on every call.
\<close>

definition late_clock :: "nat \<Rightarrow> int" where
  "late_clock k = (if k < 26 then 0 else 500)"

definition tenth :: real where
  "tenth = 3602879701896397 / 36028797018963968"

definition tenth_net :: "nat \<Rightarrow> board \<Rightarrow> nn_outcome" where
  "tenth_net k b = Returns tenth"

text \<open>
  What a selection returned, for the examples: the result, the visit counts of the
  candidates in their order, and the number of evaluations.
\<close>

definition outcome :: "pos list \<Rightarrow> ((error + pos option) \<times> mcts_state) option \<Rightarrow>
    ((error + pos option) \<times> nat list \<times> nat) option" where
  "outcome ms res = map_option (\<lambda>(r, s). (r, map (visits s) ms, simulations s)) res"

text \<open>The running sum after \<open>n\<close> evaluations that all returned \<open>c\<close>.\<close>

fun repeated_sum :: "real \<Rightarrow> nat \<Rightarrow> real" where
  "repeated_sum c 0 = 0"
| "repeated_sum c (Suc n) = add64 (repeated_sum c n) c"

text \<open>
  The two tables hold what the recorded evaluations say, and every recorded value is
  what a simulation of its candidate returned.
\<close>

definition tables_ok :: "(nat \<Rightarrow> board \<Rightarrow> nn_outcome) \<Rightarrow> game \<Rightarrow> mcts_state \<Rightarrow> bool" where
  "tables_ok nn g s \<longleftrightarrow>
     (\<forall>m. scores s m = tally m (evaluated s) \<and> visits s m = count_of m (evaluated s)) \<and>
     (\<forall>e \<in> set (evaluated s). \<exists>k. simulate nn g (fst (snd e)) k = Inr (snd (snd e)))"

section \<open>Rounding\<close>

lemma round_even_nonneg: "0 \<le> y \<Longrightarrow> 0 \<le> round_even y"
  by (simp add: round_even_def Let_def)

lemma round_even_le:
  assumes "y \<le> of_int k"
  shows "round_even y \<le> k"
proof (cases "\<lfloor>y\<rfloor> = k")
  case True
  with assms have "y - of_int \<lfloor>y\<rfloor> \<le> 0" by simp
  then have "y - of_int \<lfloor>y\<rfloor> < 1 / 2" by simp
  with True show ?thesis by (simp add: round_even_def Let_def)
next
  case False
  from assms have "\<lfloor>y\<rfloor> \<le> k" by (simp add: floor_le_iff)
  with False have "\<lfloor>y\<rfloor> + 1 \<le> k" by simp
  then show ?thesis by (simp add: round_even_def Let_def)
qed

lemma scale_up_inv:
  assumes "scale_up y p e = (y', p')" and "0 \<le> y" and "y \<le> p" and "p = of_int k" and "0 < k"
  shows "0 \<le> y' \<and> y' \<le> p' \<and> (\<exists>k'. p' = of_int k' \<and> 0 < k')"
  using assms
proof (induction y p e arbitrary: k rule: scale_up.induct)
  case (1 y p e)
  show ?case
  proof (cases "y < 4503599627370496 \<and> -1074 < e")
    case True
    with "1.prems"(1) have "scale_up (2 * y) (2 * p) (e - 1) = (y', p')" by simp
    moreover from "1.prems" have "0 \<le> 2 * y" "2 * y \<le> 2 * p" "2 * p = of_int (2 * k)" "0 < 2 * k"
      by simp_all
    ultimately show ?thesis using "1.IH" [OF True] by blast
  next
    case False
    with "1.prems"(1) have "y' = y" "p' = p" by auto
    with "1.prems" show ?thesis by blast
  qed
qed

lemma scale_down_inv:
  assumes "scale_down y p e = (y', p')" and "0 \<le> y" and "0 < p"
  shows "0 \<le> y' \<and> 0 < p'"
  using assms
proof (induction y p e rule: scale_down.induct)
  case (1 y p e)
  show ?case
  proof (cases "9007199254740992 \<le> y \<and> e < 971")
    case True
    with "1.prems"(1) have "scale_down (y / 2) (p / 2) (e + 1) = (y', p')" by simp
    moreover from "1.prems" have "0 \<le> y / 2" "0 < p / 2" by simp_all
    ultimately show ?thesis using "1.IH" [OF True] by blast
  next
    case False
    with "1.prems"(1) have "y' = y" "p' = p" by auto
    with "1.prems" show ?thesis by blast
  qed
qed

lemma round64_pos_nonneg:
  assumes "0 \<le> x"
  shows "0 \<le> round64_pos x"
proof (cases "x < 1")
  case True
  obtain y' p' where s: "scale_up (x * 4503599627370496) 4503599627370496 (-52) = (y', p')"
    by (cases "scale_up (x * 4503599627370496) 4503599627370496 (-52)")
  from True assms have "0 \<le> x * 4503599627370496" "x * 4503599627370496 \<le> 4503599627370496"
    by simp_all
  with s have "0 \<le> y' \<and> y' \<le> p' \<and> (\<exists>k'. p' = of_int k' \<and> 0 < k')"
    by (rule scale_up_inv [where k = 4503599627370496]) simp_all
  then have "0 \<le> of_int (round_even y') / p'"
    using round_even_nonneg [of y'] by auto
  with True s show ?thesis by (simp add: round64_pos_def)
next
  case False
  obtain y' p' where s: "scale_down (x * 4503599627370496) 4503599627370496 (-52) = (y', p')"
    by (cases "scale_down (x * 4503599627370496) 4503599627370496 (-52)")
  from assms have "0 \<le> x * 4503599627370496" by simp
  with s have "0 \<le> y' \<and> 0 < p'" by (rule scale_down_inv) simp
  then have "0 \<le> of_int (round_even y') / p'"
    using round_even_nonneg [of y'] by auto
  with False s show ?thesis by (simp add: round64_pos_def)
qed

lemma round64_nonneg: "0 \<le> x \<Longrightarrow> 0 \<le> round64 x"
  using round64_pos_nonneg [of x] by (simp add: round64_def)

lemma round64_one: "round64 1 = 1"
proof -
  have "scale_down 4503599627370496 4503599627370496 (-52) = (4503599627370496, 4503599627370496)"
    by (subst scale_down.simps) simp
  moreover have "round_even 4503599627370496 = 4503599627370496"
    by (simp add: round_even_def Let_def)
  ultimately show ?thesis by (simp add: round64_def round64_pos_def)
qed

lemma round64_le_one:
  assumes "0 \<le> x" and "x \<le> 1"
  shows "round64 x \<le> 1"
proof (cases "x = 0 \<or> x = 1")
  case True
  then show ?thesis using round64_one by (auto simp: round64_def)
next
  case False
  with assms have x: "0 < x" "x < 1" by simp_all
  obtain y' p' where s: "scale_up (x * 4503599627370496) 4503599627370496 (-52) = (y', p')"
    by (cases "scale_up (x * 4503599627370496) 4503599627370496 (-52)")
  from x have "0 \<le> x * 4503599627370496" "x * 4503599627370496 \<le> 4503599627370496"
    by simp_all
  with s have "0 \<le> y' \<and> y' \<le> p' \<and> (\<exists>k'. p' = of_int k' \<and> 0 < k')"
    by (rule scale_up_inv [where k = 4503599627370496]) simp_all
  then obtain k' where k: "y' \<le> of_int k'" "p' = of_int k'" "0 < k'" by blast
  from k(1) have "round_even y' \<le> k'" by (rule round_even_le)
  then have "real_of_int (round_even y') \<le> real_of_int k'" by (simp only: of_int_le_iff)
  with k(3) have "of_int (round_even y') / real_of_int k' \<le> 1" by simp
  with x s k(2) show ?thesis by (simp add: round64_def round64_pos_def)
qed

lemma powi_step_up: "2 * (2::real) powi (- e) = 2 powi (- (e - 1))"
proof -
  have "- (e - 1) = - e + 1" by simp
  then have "(2::real) powi (- (e - 1)) = 2 powi (- e + 1)" by (simp only:)
  also have "\<dots> = 2 powi (- e) * 2 powi 1" by (rule power_int_add) simp
  finally show ?thesis by simp
qed

lemma powi_step_down: "(2::real) powi (- e) / 2 = 2 powi (- (e + 1))"
proof -
  have "- e = - (e + 1) + 1" by simp
  then have "(2::real) powi (- e) = 2 powi (- (e + 1) + 1)" by (simp only:)
  also have "\<dots> = 2 powi (- (e + 1)) * 2 powi 1" by (rule power_int_add) simp
  finally show ?thesis by simp
qed

lemma scale_up_grid:
  assumes "scale_up y p e = (y', p')" and "p = 2 powi (- e)" and "y = x * p"
    and "y < 9007199254740992" and "-1074 \<le> e"
  shows "\<exists>e'. -1074 \<le> e' \<and> e' \<le> e \<and> p' = 2 powi (- e') \<and> y' = x * p' \<and>
           y' < 9007199254740992 \<and> (4503599627370496 \<le> y' \<or> e' = -1074)"
  using assms
proof (induction y p e rule: scale_up.induct)
  case (1 y p e)
  show ?case
  proof (cases "y < 4503599627370496 \<and> -1074 < e")
    case True
    with "1.prems"(1) have a: "scale_up (2 * y) (2 * p) (e - 1) = (y', p')" by simp
    from "1.prems"(2) have b: "2 * p = 2 powi (- (e - 1))" by (simp only: powi_step_up)
    from "1.prems"(3) have c: "2 * y = x * (2 * p)" by simp
    from True have d: "2 * y < 9007199254740992" and e: "-1074 \<le> e - 1" by simp_all
    from "1.IH" [OF True a b c d e] obtain e' where e': "-1074 \<le> e'" "e' \<le> e - 1"
      "p' = 2 powi (- e')" "y' = x * p'"
      "y' < 9007199254740992" "4503599627370496 \<le> y' \<or> e' = -1074"
      by blast
    from e'(2) have "e' \<le> e" by simp
    with e' show ?thesis by blast
  next
    case False
    with "1.prems"(1) have eq: "y' = y" "p' = p" by auto
    from False "1.prems"(5) have "4503599627370496 \<le> y \<or> e = -1074" by auto
    with eq "1.prems"(2-5) show ?thesis by blast
  qed
qed

lemma scale_down_grid:
  assumes "scale_down y p e = (y', p')" and "p = 2 powi (- e)" and "y = x * p"
    and "4503599627370496 \<le> y" and "e \<le> 971"
  shows "\<exists>e'. e \<le> e' \<and> e' \<le> 971 \<and> p' = 2 powi (- e') \<and> y' = x * p' \<and>
           4503599627370496 \<le> y' \<and> (y' < 9007199254740992 \<or> e' = 971)"
  using assms
proof (induction y p e rule: scale_down.induct)
  case (1 y p e)
  show ?case
  proof (cases "9007199254740992 \<le> y \<and> e < 971")
    case True
    with "1.prems"(1) have a: "scale_down (y / 2) (p / 2) (e + 1) = (y', p')" by simp
    from "1.prems"(2) have b: "p / 2 = 2 powi (- (e + 1))" by (simp only: powi_step_down)
    from "1.prems"(3) have c: "y / 2 = x * (p / 2)" by simp
    from True have d: "4503599627370496 \<le> y / 2" and e: "e + 1 \<le> 971" by simp_all
    from "1.IH" [OF True a b c d e] obtain e' where e': "e + 1 \<le> e'" "e' \<le> 971"
      "p' = 2 powi (- e')" "y' = x * p'"
      "4503599627370496 \<le> y'" "y' < 9007199254740992 \<or> e' = 971"
      by blast
    from e'(1) have "e \<le> e'" by simp
    with e' show ?thesis by blast
  next
    case False
    with "1.prems"(1) have eq: "y' = y" "p' = p" by auto
    from False "1.prems"(5) have "y < 9007199254740992 \<or> e = 971" by auto
    with eq "1.prems"(2-5) show ?thesis by blast
  qed
qed

text \<open>
  What the two loops compute: the number is rounded on the grid of the multiples of
  \<open>2 powi e\<close>, where \<open>e\<close> leaves 53 significant bits, or is the subnormal step or
  the largest exponent.
\<close>

lemma round64_pos_grid:
  assumes "0 < x"
  shows "\<exists>e. -1074 \<le> e \<and> e \<le> 971 \<and>
           round64_pos x = of_int (round_even (x * 2 powi (- e))) / 2 powi (- e) \<and>
           (4503599627370496 \<le> x * 2 powi (- e) \<or> e = -1074) \<and>
           (x * 2 powi (- e) < 9007199254740992 \<or> e = 971)"
proof (cases "x < 1")
  case True
  obtain y' p' where s: "scale_up (x * 4503599627370496) 4503599627370496 (-52) = (y', p')"
    by (cases "scale_up (x * 4503599627370496) 4503599627370496 (-52)")
  have p: "(4503599627370496 :: real) = 2 powi (- (-52))" by simp
  from True have lt: "x * 4503599627370496 < 9007199254740992" by simp
  have "-1074 \<le> (-52 :: int)" by simp
  from scale_up_grid [OF s p refl lt this] obtain e' where e: "-1074 \<le> e'" "e' \<le> -52"
      "p' = 2 powi (- e')" "y' = x * p'"
      "y' < 9007199254740992" "4503599627370496 \<le> y' \<or> e' = -1074"
    by blast
  from True s e(3,4) have r: "round64_pos x = of_int (round_even (x * 2 powi (- e'))) / 2 powi (- e')"
    by (simp add: round64_pos_def)
  from e(2) have "e' \<le> 971" by simp
  with e r show ?thesis by blast
next
  case False
  obtain y' p' where s: "scale_down (x * 4503599627370496) 4503599627370496 (-52) = (y', p')"
    by (cases "scale_down (x * 4503599627370496) 4503599627370496 (-52)")
  have p: "(4503599627370496 :: real) = 2 powi (- (-52))" by simp
  from False have ge: "4503599627370496 \<le> x * 4503599627370496" by simp
  have "(-52 :: int) \<le> 971" by simp
  from scale_down_grid [OF s p refl ge this] obtain e' where e: "-52 \<le> e'" "e' \<le> 971"
      "p' = 2 powi (- e')" "y' = x * p'"
      "4503599627370496 \<le> y'" "y' < 9007199254740992 \<or> e' = 971"
    by blast
  from False s e(3,4) have r: "round64_pos x = of_int (round_even (x * 2 powi (- e'))) / 2 powi (- e')"
    by (simp add: round64_pos_def)
  from e(1) have "-1074 \<le> e'" by simp
  with e r show ?thesis by blast
qed

lemma round_even_near: "\<bar>of_int (round_even y) - y\<bar> \<le> 1 / 2"
proof -
  define f where "f = \<lfloor>y\<rfloor>"
  have b: "of_int f \<le> y" "y < of_int f + 1" unfolding f_def by linarith+
  have "round_even y = (if y - of_int f < 1 / 2 then f else if 1 / 2 < y - of_int f then f + 1
                        else if even f then f else f + 1)"
    by (simp add: round_even_def Let_def f_def)
  with b show ?thesis by (auto simp: abs_if)
qed

section \<open>Move rules\<close>

lemma wf_board_initializeBoard: "wf_board initializeBoard"
  by (simp add: wf_board_def initializeBoard_def BOARD_SIZE_def list_all_iff)

lemma read_cell_wf:
  assumes "wf_board b" and "isValidPosition r c"
  shows "read_cell b r c = Inr (Some (b ! nat r ! nat c))"
proof -
  from assms have r: "0 \<le> r" "r < 7" and c: "0 \<le> c" "c < 7"
    by (simp_all add: isValidPosition_def BOARD_SIZE_def)
  from assms(1) have len: "length b = 7" by (simp add: wf_board_def)
  with r have "b ! nat r \<in> set b" by simp
  with assms(1) have "length (b ! nat r) = 7" by (simp add: wf_board_def list_all_iff)
  with r c len show ?thesis by (simp add: read_cell_def read_col_def)
qed

lemma getValidMoves_loop_wf:
  assumes "wf_board b"
  shows "getValidMoves_loop b p ds moves = Inr (moves @ filter (open_cell b) (map (shift p) ds))"
proof (induction ds arbitrary: moves)
  case Nil
  show ?case by simp
next
  case (Cons d ds)
  obtain dx dy where d: "d = (dx, dy)" by (cases d)
  show ?case
  proof (cases "isValidPosition (fst p + dx) (snd p + dy)")
    case True
    with assms have "read_cell b (fst p + dx) (snd p + dy)
        = Inr (Some (b ! nat (fst p + dx) ! nat (snd p + dy)))"
      by (rule read_cell_wf)
    with True show ?thesis
      by (simp add: d Cons.IH open_cell_def shift_def)
  next
    case False
    then show ?thesis by (simp add: d Cons.IH open_cell_def shift_def)
  qed
qed

lemma getValidMoves_wf:
  assumes "wf_board b"
  shows "getValidMoves b (Some p) = Inr (filter (open_cell b) (map (shift p) directions))"
  using getValidMoves_loop_wf [OF assms, of p directions "[]"]
  by (simp add: getValidMoves_def)

lemma abs_le_one_iff: "\<bar>a::int\<bar> \<le> 1 \<longleftrightarrow> a = -1 \<or> a = 0 \<or> a = 1"
  by arith

lemma cheb_one_iff:
  "max \<bar>a::int\<bar> \<bar>b\<bar> = 1 \<longleftrightarrow> (a = -1 \<or> a = 0 \<or> a = 1) \<and> (b = -1 \<or> b = 0 \<or> b = 1) \<and> \<not> (a = 0 \<and> b = 0)"
proof -
  have "max \<bar>a\<bar> \<bar>b\<bar> = 1 \<longleftrightarrow> \<bar>a\<bar> \<le> 1 \<and> \<bar>b\<bar> \<le> 1 \<and> \<not> (a = 0 \<and> b = 0)"
    by arith
  then show ?thesis by (simp only: abs_le_one_iff)
qed

lemma directions_iff: "(a, b) \<in> set directions \<longleftrightarrow> max \<bar>a\<bar> \<bar>b\<bar> = (1::int)"
  unfolding cheb_one_iff by (auto simp: directions_def)

lemma shift_directions:
  "set (map (shift (r, c)) directions) = {(r', c'). max \<bar>r' - r\<bar> \<bar>c' - c\<bar> = 1}"
proof (rule set_eqI)
  fix q :: pos
  obtain r' c' where q: "q = (r', c')" by (cases q)
  have "q \<in> set (map (shift (r, c)) directions) \<longleftrightarrow> (\<exists>d \<in> set directions. q = shift (r, c) d)"
    by auto
  also have "\<dots> \<longleftrightarrow> (r' - r, c' - c) \<in> set directions"
  proof
    assume "\<exists>d \<in> set directions. q = shift (r, c) d"
    then obtain d where d: "d \<in> set directions" "q = shift (r, c) d" by blast
    from d(2) have "d = (r' - r, c' - c)" by (simp add: q shift_def prod_eq_iff)
    with d(1) show "(r' - r, c' - c) \<in> set directions" by simp
  next
    assume "(r' - r, c' - c) \<in> set directions"
    moreover have "q = shift (r, c) (r' - r, c' - c)" by (simp add: q shift_def)
    ultimately show "\<exists>d \<in> set directions. q = shift (r, c) d" by blast
  qed
  also have "\<dots> \<longleftrightarrow> max \<bar>r' - r\<bar> \<bar>c' - c\<bar> = 1"
    by (rule directions_iff)
  finally show "q \<in> set (map (shift (r, c)) directions) \<longleftrightarrow>
      q \<in> {(r', c'). max \<bar>r' - r\<bar> \<bar>c' - c\<bar> = 1}"
    by (simp add: q)
qed

lemma distinct_shift_directions: "distinct (map (shift p) directions)"
proof -
  have "inj_on (shift p) (set directions)"
    by (rule inj_onI) (simp add: shift_def prod_eq_iff)
  moreover have "distinct directions"
    by (simp add: directions_def)
  ultimately show ?thesis
    by (simp add: distinct_map)
qed

text \<open>
  C9. For every board of 7 rows of 7 cells and every position, \<open>getValidMoves\<close>
  returns (without throwing, each cell once) exactly the cells at Chebyshev distance 1
  from the position whose row and column both lie in 0..6 and which hold EMPTY.
\<close>

theorem getValidMoves_exact:
  assumes "length b = 7" and "\<forall>row \<in> set b. length row = 7"
  shows "\<exists>ms. getValidMoves b (Some (r, c)) = Inr ms \<and> distinct ms \<and>
           set ms = {(r', c'). max \<bar>r' - r\<bar> \<bar>c' - c\<bar> = 1 \<and>
                       0 \<le> r' \<and> r' < 7 \<and> 0 \<le> c' \<and> c' < 7 \<and> b ! nat r' ! nat c' = EMPTY}"
proof -
  from assms have wf: "wf_board b" by (simp add: wf_board_def list_all_iff)
  let ?ms = "filter (open_cell b) (map (shift (r, c)) directions)"
  have 1: "getValidMoves b (Some (r, c)) = Inr ?ms"
    using wf by (rule getValidMoves_wf)
  have 2: "distinct ?ms"
    using distinct_shift_directions by (rule distinct_filter)
  have cell: "open_cell b (r', c') \<longleftrightarrow>
      0 \<le> r' \<and> r' < 7 \<and> 0 \<le> c' \<and> c' < 7 \<and> b ! nat r' ! nat c' = EMPTY" for r' c'
  proof (cases "isValidPosition r' c'")
    case True
    with wf have "read_cell b r' c' = Inr (Some (b ! nat r' ! nat c'))" by (rule read_cell_wf)
    with True show ?thesis by (auto simp: open_cell_def isValidPosition_def BOARD_SIZE_def)
  next
    case False
    then show ?thesis by (auto simp: open_cell_def isValidPosition_def BOARD_SIZE_def)
  qed
  have "set ?ms = {q \<in> set (map (shift (r, c)) directions). open_cell b q}"
    by simp
  also have "\<dots> = {(r', c'). max \<bar>r' - r\<bar> \<bar>c' - c\<bar> = 1 \<and>
                       0 \<le> r' \<and> r' < 7 \<and> 0 \<le> c' \<and> c' < 7 \<and> b ! nat r' ! nat c' = EMPTY}"
    unfolding shift_directions by (auto simp: cell)
  finally show ?thesis using 1 2 by blast
qed

text \<open>
  Around the human on (2, 2) in \<open>demo3\<close>: of the eight neighbours, (2, 3) holds the
  software agent and (1, 1) and (3, 3) are BLOCKED.
\<close>

theorem getValidMoves_exact_witness:
  "length (board demo3) = 7 \<and> list_all (\<lambda>row. length row = 7) (board demo3) \<and>
   getValidMoves (board demo3) (Some (2, 2)) = Inr [(1, 2), (3, 2), (2, 1), (1, 3), (3, 1)] \<and>
   set [(1, 2), (3, 2), (2, 1), (1, 3), (3, 1)] =
     {(r', c'). max \<bar>r' - 2\<bar> \<bar>c' - 2\<bar> = 1 \<and>
        0 \<le> r' \<and> r' < 7 \<and> 0 \<le> c' \<and> c' < 7 \<and> board demo3 ! nat r' ! nat c' = EMPTY}"
proof -
  have len: "length (board demo3) = 7" by code_simp
  have rows: "list_all (\<lambda>row. length row = 7) (board demo3)" by code_simp
  then have rows': "\<forall>row \<in> set (board demo3). length row = 7" by (simp add: list_all_iff)
  have run: "getValidMoves (board demo3) (Some (2, 2)) = Inr [(1, 2), (3, 2), (2, 1), (1, 3), (3, 1)]"
    by code_simp
  from getValidMoves_exact [OF len rows', of 2 2] obtain ms
    where ms: "getValidMoves (board demo3) (Some (2, 2)) = Inr ms"
      and cells: "set ms = {(r', c'). max \<bar>r' - 2\<bar> \<bar>c' - 2\<bar> = 1 \<and>
        0 \<le> r' \<and> r' < 7 \<and> 0 \<le> c' \<and> c' < 7 \<and> board demo3 ! nat r' ! nat c' = EMPTY}"
    by blast
  from ms run have "ms = [(1, 2), (3, 2), (2, 1), (1, 3), (3, 1)]" by simp
  with cells len rows run show ?thesis by blast
qed

subsection \<open>Cells\<close>

lemma read_cell_error: "read_cell b r c = Inl e \<Longrightarrow> e = TypeError"
  by (simp add: read_cell_def split: if_splits)

lemma write_cell_error: "write_cell b p v = Inl e \<Longrightarrow> e = TypeError"
  by (simp add: write_cell_def split: if_splits)

lemma length_write_col: "length (write_col row c v) = length row"
  by (simp add: write_col_def)

lemma read_write_col_same:
  assumes "0 \<le> c" and "c < int (length row)"
  shows "read_col (write_col row c v) c = Some v"
  using assms by (simp add: write_col_def read_col_def)

lemma read_write_col_other:
  assumes "c' \<noteq> c"
  shows "read_col (write_col row c v) c' = read_col row c'"
proof (cases "0 \<le> c \<and> c < int (length row) \<and> 0 \<le> c'")
  case True
  with assms have "nat c' \<noteq> nat c" by (simp add: eq_nat_nat_iff)
  with True show ?thesis by (simp add: write_col_def read_col_def)
next
  case False
  then consider "\<not> (0 \<le> c \<and> c < int (length row))" | "\<not> 0 \<le> c'" by blast
  then show ?thesis
  proof cases
    case 1
    then have "write_col row c v = row" unfolding write_col_def by (rule if_not_P)
    then show ?thesis by simp
  next
    case 2
    then show ?thesis by (simp add: read_col_def length_write_col)
  qed
qed

lemma read_col_unwritten:
  assumes "\<not> (0 \<le> c \<and> c < int (length row))"
  shows "write_col row c v = row"
  unfolding write_col_def using assms by (rule if_not_P)

lemma write_cell_Inr:
  "write_cell b p v = Inr b' \<longleftrightarrow>
     0 \<le> fst p \<and> fst p < int (length b) \<and>
     b' = b[nat (fst p) := write_col (b ! nat (fst p)) (snd p) v]"
  unfolding write_cell_def by (cases "0 \<le> fst p \<and> fst p < int (length b)") auto

lemma write_cell_length: "write_cell b p v = Inr b' \<Longrightarrow> length b' = length b"
  by (simp add: write_cell_Inr)

lemma row_length_wf:
  assumes "wf_board b" and "0 \<le> r" and "r < 7"
  shows "length (b ! nat r) = 7"
proof -
  from assms have "b ! nat r \<in> set b" by (simp add: wf_board_def)
  with assms(1) show ?thesis by (simp add: wf_board_def list_all_iff)
qed

lemma wf_board_nth:
  "wf_board b \<longleftrightarrow> length b = 7 \<and> (\<forall>i<7. length (b ! i) = 7)"
  unfolding wf_board_def list_all_length by auto

lemma write_cell_wf:
  assumes "write_cell b p v = Inr b'" and "wf_board b"
  shows "wf_board b'"
proof -
  from assms(1) have b': "b' = b[nat (fst p) := write_col (b ! nat (fst p)) (snd p) v]"
    by (simp add: write_cell_Inr)
  from assms(2) have len: "length b = 7" and rows: "\<forall>i<7. length (b ! i) = 7"
    by (simp_all add: wf_board_nth)
  have "length (b' ! i) = 7" if "i < 7" for i
  proof (cases "i = nat (fst p)")
    case True
    with that len rows show ?thesis by (simp add: b' length_write_col)
  next
    case False
    with that len rows show ?thesis by (simp add: b')
  qed
  with len b' show ?thesis by (simp add: wf_board_nth)
qed

lemma write_cell_ok:
  assumes "wf_board b" and "in_bounds p"
  shows "\<exists>b'. write_cell b p v = Inr b'"
  using assms
  by (simp add: write_cell_def wf_board_def in_bounds_def isValidPosition_def BOARD_SIZE_def)

lemma read_write_other:
  assumes "write_cell b p v = Inr b'" and "(r, c) \<noteq> p"
  shows "read_cell b' r c = read_cell b r c"
proof -
  from assms(1) have pr: "0 \<le> fst p" "fst p < int (length b)"
    and b': "b' = b[nat (fst p) := write_col (b ! nat (fst p)) (snd p) v]"
    by (simp_all add: write_cell_Inr)
  have len: "length b' = length b" by (simp add: b')
  show ?thesis
  proof (cases "0 \<le> r \<and> r < int (length b)")
    case False
    then show ?thesis unfolding read_cell_def len by auto
  next
    case True
    show ?thesis
    proof (cases "r = fst p")
      case False
      with True pr have "nat r \<noteq> nat (fst p)" by (simp add: eq_nat_nat_iff)
      then have "b' ! nat r = b ! nat r" by (simp add: b')
      then show ?thesis unfolding read_cell_def len by simp
    next
      case same: True
      with assms(2) have "c \<noteq> snd p" by (auto simp: prod_eq_iff)
      then have "read_col (write_col (b ! nat (fst p)) (snd p) v) c = read_col (b ! nat (fst p)) c"
        by (rule read_write_col_other)
      moreover from pr have "b' ! nat (fst p) = write_col (b ! nat (fst p)) (snd p) v"
        by (simp add: b')
      ultimately show ?thesis unfolding read_cell_def len same by simp
    qed
  qed
qed

lemma read_write_same:
  assumes "write_cell b p v = Inr b'" and "wf_board b" and "in_bounds p"
  shows "read_cell b' (fst p) (snd p) = Inr (Some v)"
proof -
  from assms(3) have pr: "0 \<le> fst p" "fst p < 7" and pc: "0 \<le> snd p" "snd p < 7"
    by (simp_all add: in_bounds_def isValidPosition_def BOARD_SIZE_def)
  from assms(2) pr have rl: "length (b ! nat (fst p)) = 7" by (rule row_length_wf)
  from assms(2) have len: "length b = 7" by (simp add: wf_board_def)
  from assms(1) have b': "b' = b[nat (fst p) := write_col (b ! nat (fst p)) (snd p) v]"
    by (simp add: write_cell_Inr)
  from pr len have "b' ! nat (fst p) = write_col (b ! nat (fst p)) (snd p) v"
    by (simp add: b')
  moreover from pc rl have "read_col (write_col (b ! nat (fst p)) (snd p) v) (snd p) = Some v"
    by (simp add: read_write_col_same)
  moreover from pr len have "0 \<le> fst p \<and> fst p < int (length b')" by (simp add: b')
  ultimately show ?thesis unfolding read_cell_def by simp
qed

lemma getValidMoves_loop_error: "getValidMoves_loop b p ds moves = Inl e \<Longrightarrow> e = TypeError"
proof (induction ds arbitrary: moves)
  case Nil
  then show ?case by simp
next
  case (Cons d ds)
  obtain dx dy where d: "d = (dx, dy)" by (cases d)
  show ?case
  proof (cases "isValidPosition (fst p + dx) (snd p + dy)")
    case False
    with Cons.prems have "getValidMoves_loop b p ds moves = Inl e" by (simp add: d)
    then show ?thesis by (rule Cons.IH)
  next
    case True
    show ?thesis
    proof (cases "read_cell b (fst p + dx) (snd p + dy)")
      case (Inl e')
      with True Cons.prems have "e = e'" by (simp add: d)
      with Inl show ?thesis by (simp add: read_cell_error)
    next
      case (Inr c)
      with True Cons.prems have "getValidMoves_loop b p ds
          (if c = Some EMPTY then moves @ [(fst p + dx, snd p + dy)] else moves) = Inl e"
        by (simp add: d)
      then show ?thesis by (rule Cons.IH)
    qed
  qed
qed

lemma getValidMoves_error: "getValidMoves b pos = Inl e \<Longrightarrow> e = TypeError"
  by (cases pos) (auto simp: getValidMoves_def dest: getValidMoves_loop_error)

lemma getValidMoves_ok:
  assumes "wf_board b" and "pos \<noteq> None"
  shows "\<exists>ms. getValidMoves b pos = Inr ms"
  using assms getValidMoves_wf by (cases pos) auto

lemma getValidMoves_in_bounds:
  assumes "wf_board b" and "getValidMoves b pos = Inr ms" and "m \<in> set ms"
  shows "in_bounds m \<and> read_cell b (fst m) (snd m) = Inr (Some EMPTY)"
proof (cases pos)
  case None
  with assms(2) show ?thesis by (simp add: getValidMoves_def)
next
  case (Some p)
  with assms(1,2) have "ms = filter (open_cell b) (map (shift p) directions)"
    by (simp add: getValidMoves_wf)
  with assms(3) show ?thesis by (simp add: open_cell_def in_bounds_def)
qed

subsection \<open>History\<close>

lemma pop_times_take: "pop_times n xs = take (length xs - n) xs"
proof (induction n arbitrary: xs)
  case 0
  show ?case by simp
next
  case (Suc n)
  have "pop_times (Suc n) xs = take (length (butlast xs) - n) (butlast xs)"
    by (simp add: Suc.IH pop_def)
  also have "\<dots> = take (length xs - Suc n) xs"
    by (simp add: butlast_conv_take)
  finally show ?case .
qed

lemma lastHumanMoveIndex_range: "-1 \<le> lastHumanMoveIndex h n \<and> lastHumanMoveIndex h n < int n"
  by (induction n) auto

lemma lastHumanMoveIndex_found:
  "0 \<le> lastHumanMoveIndex h n \<Longrightarrow> mv_player (h ! nat (lastHumanMoveIndex h n)) = HUMAN"
  by (induction n) (auto split: if_splits)

lemma lastHumanMoveIndex_last:
  "nat (lastHumanMoveIndex h n) < j \<Longrightarrow> j < n \<Longrightarrow> 0 \<le> lastHumanMoveIndex h n \<Longrightarrow> mv_player (h ! j) \<noteq> HUMAN"
proof (induction n)
  case 0
  then show ?case by simp
next
  case (Suc n)
  show ?case
  proof (cases "mv_player (h ! n) = HUMAN")
    case True
    with Suc.prems show ?thesis by simp
  next
    case False
    with Suc.prems have "j < n \<or> j = n" by auto
    with False Suc show ?thesis by auto
  qed
qed

lemma lastHumanMoveIndex_none:
  "lastHumanMoveIndex h n = -1 \<Longrightarrow> j < n \<Longrightarrow> mv_player (h ! j) \<noteq> HUMAN"
proof (induction n)
  case 0
  then show ?case by simp
next
  case (Suc n)
  from Suc.prems(1) have nh: "mv_player (h ! n) \<noteq> HUMAN" and rec: "lastHumanMoveIndex h n = -1"
    by (auto split: if_splits)
  from Suc.prems(2) have "j < n \<or> j = n" by auto
  with nh rec Suc.IH show ?case by auto
qed

subsection \<open>Undo\<close>

lemma undo_history:
  assumes "0 \<le> idx" and "idx < int (length h)"
  shows "pop (pop_times (nat (int (length h) - idx)) h) = take (nat idx - 1) h"
proof -
  from assms have "length h - nat (int (length h) - idx) = nat idx" by linarith
  then have "pop (pop_times (nat (int (length h) - idx)) h) = butlast (take (nat idx) h)"
    by (simp add: pop_times_take pop_def)
  also from assms have "\<dots> = take (nat idx - 1) h"
    by (simp add: butlast_take)
  finally show ?thesis .
qed

lemma undo_unfold:
  assumes "gamePhase g \<noteq> ended" and "moveHistory g \<noteq> []"
    and "0 \<le> lastHumanMoveIndex (moveHistory g) (length (moveHistory g))"
  shows "undoLastMove_game g =
    (let h' = take (nat (lastHumanMoveIndex (moveHistory g) (length (moveHistory g))) - 1) (moveHistory g);
         g1 = g\<lparr>moveHistory := h'\<rparr>
     in if h' = [] then
          (Inr (), g1\<lparr>gamePhase := starting, currentPlayer := HUMAN, humanPos := None,
                     aiPos := None, winner := None, board := initializeBoard\<rparr>)
        else
          (case write_cell (board g) (mv_to (lastHumanMove g)) EMPTY of
             Inl e \<Rightarrow> (Inl e, g1)
           | Inr b1 \<Rightarrow>
               (case (case mv_from (lastHumanMove g) of
                        None \<Rightarrow> Inr b1
                      | Some src \<Rightarrow> write_cell b1 src (Piece (mv_player (lastHumanMove g)))) of
                  Inl e \<Rightarrow> (Inl e, g1\<lparr>board := b1\<rparr>)
                | Inr b2 \<Rightarrow>
                    (Inr (), g1\<lparr>board := b2, humanPos := mv_from (lastHumanMove g),
                               currentPlayer := HUMAN\<rparr>))))"
proof -
  let ?idx = "lastHumanMoveIndex (moveHistory g) (length (moveHistory g))"
  have lt: "?idx < int (length (moveHistory g))"
    using lastHumanMoveIndex_range [of "moveHistory g" "length (moveHistory g)"] by simp
  have ne: "?idx \<noteq> -1" using assms(3) by simp
  have h: "pop (pop_times (nat (int (length (moveHistory g)) - ?idx)) (moveHistory g))
      = take (nat ?idx - 1) (moveHistory g)"
    using assms(3) lt by (rule undo_history)
  show ?thesis
    unfolding undoLastMove_game_def lastHumanMove_def Let_def h
    by (simp only: assms(1,2) ne length_0_conv if_False) simp
qed

lemma undo_errors:
  "undoLastMove_game g = (Inl e, g') \<Longrightarrow> e \<noteq> TypeError \<Longrightarrow> g' = g"
  unfolding undoLastMove_game_def Let_def
  by (auto split: if_splits sum.splits option.splits dest: write_cell_error)

lemma undo_success_pre:
  assumes "undoLastMove_game g = (Inr u, g')"
  shows "gamePhase g \<noteq> ended \<and> moveHistory g \<noteq> [] \<and>
         0 \<le> lastHumanMoveIndex (moveHistory g) (length (moveHistory g))"
proof -
  have "-1 \<le> lastHumanMoveIndex (moveHistory g) (length (moveHistory g))"
    using lastHumanMoveIndex_range by blast
  moreover from assms have "gamePhase g \<noteq> ended \<and> moveHistory g \<noteq> [] \<and>
      lastHumanMoveIndex (moveHistory g) (length (moveHistory g)) \<noteq> -1"
    unfolding undoLastMove_game_def Let_def by (auto split: if_splits)
  ultimately show ?thesis by force
qed

subsection \<open>Committing a move\<close>

lemma checkGameEnd_wf:
  assumes "wf_board (board g)" and "humanPos g \<noteq> None" and "aiPos g \<noteq> None"
  shows "\<exists>hm am. getValidMoves (board g) (humanPos g) = Inr hm \<and>
           getValidMoves (board g) (aiPos g) = Inr am \<and>
           checkGameEnd g = (Inr (), if hm = [] then endGame g AI
                                     else if am = [] then endGame g HUMAN else g)"
proof -
  from assms(1,2) obtain hm where hm: "getValidMoves (board g) (humanPos g) = Inr hm"
    using getValidMoves_ok by blast
  from assms(1,3) obtain am where am: "getValidMoves (board g) (aiPos g) = Inr am"
    using getValidMoves_ok by blast
  have "checkGameEnd g = (Inr (), if hm = [] then endGame g AI
                                   else if am = [] then endGame g HUMAN else g)"
    by (simp add: checkGameEnd_def hm am)
  with hm am show ?thesis by blast
qed

lemma checkGameEndSimulation_eq: "checkGameEndSimulation g = checkGameEnd g"
  unfolding checkGameEndSimulation_def checkGameEnd_def endGame_def by (rule refl)

lemma checkGameEnd_error: "checkGameEnd g = (Inl e, g') \<Longrightarrow> e = TypeError"
  unfolding checkGameEnd_def
  by (auto split: sum.splits if_splits dest: getValidMoves_error)

lemma movePlayer_sim: "movePlayer g p newPos True = movePlayer g p newPos False"
  unfolding movePlayer_def checkGameEndSimulation_eq Let_def
  by (simp split: sum.splits option.splits)

lemma movePlayer_error: "movePlayer g p newPos sim = (Inl e, g') \<Longrightarrow> e = TypeError"
  unfolding movePlayer_def Let_def checkGameEndSimulation_eq
  by (auto split: sum.splits option.splits if_splits dest: write_cell_error checkGameEnd_error)

lemma movePlayer_wf:
  assumes "wf_board (board g)" and "pos_ok (humanPos g)" and "pos_ok (aiPos g)"
    and "in_bounds new"
  shows "\<exists>old b1 b2. (if p = HUMAN then humanPos g else aiPos g) = Some old \<and> in_bounds old \<and>
           write_cell (board g) old BLOCKED = Inr b1 \<and>
           write_cell b1 new (Piece p) = Inr b2 \<and> wf_board b2 \<and>
           movePlayer g p (Some new) sim = checkGameEnd (moved g p new b2)"
proof -
  have "pos_ok (if p = HUMAN then humanPos g else aiPos g)"
    using assms(2,3) by simp
  then obtain old where old: "(if p = HUMAN then humanPos g else aiPos g) = Some old"
    and oldb: "in_bounds old"
    unfolding pos_ok_def by (cases "if p = HUMAN then humanPos g else aiPos g") simp_all
  from assms(1) oldb obtain b1 where b1: "write_cell (board g) old BLOCKED = Inr b1"
    using write_cell_ok by blast
  from b1 assms(1) have wf1: "wf_board b1" by (rule write_cell_wf)
  from wf1 assms(4) obtain b2 where b2: "write_cell b1 new (Piece p) = Inr b2"
    using write_cell_ok by blast
  from b2 wf1 have wf2: "wf_board b2" by (rule write_cell_wf)
  have "movePlayer g p (Some new) sim = checkGameEnd (moved g p new b2)"
    using old b1 b2
    by (cases "p = HUMAN") (simp_all add: movePlayer_def checkGameEndSimulation_eq moved_def Let_def)
  with old oldb b1 b2 wf2 show ?thesis by blast
qed

lemma checkGameEnd_Inr:
  assumes "checkGameEnd g = (Inr u, g')"
  shows "\<exists>hm am. getValidMoves (board g) (humanPos g) = Inr hm \<and>
           getValidMoves (board g) (aiPos g) = Inr am \<and>
           g' = (if hm = [] then endGame g AI else if am = [] then endGame g HUMAN else g)"
  using assms unfolding checkGameEnd_def
  by (auto split: sum.splits if_splits)

lemma checkGameEnd_end_rule:
  assumes "checkGameEnd g = (Inr u, g')" and "gamePhase g = playing"
  shows "end_rule g g' \<and> board g' = board g \<and> humanPos g' = humanPos g \<and> aiPos g' = aiPos g
     \<and> moveHistory g' = moveHistory g \<and> currentPlayer g' = currentPlayer g"
proof -
  from assms(1) obtain hm am where hm: "getValidMoves (board g) (humanPos g) = Inr hm"
    and am: "getValidMoves (board g) (aiPos g) = Inr am"
    and g': "g' = (if hm = [] then endGame g AI else if am = [] then endGame g HUMAN else g)"
    using checkGameEnd_Inr by blast
  show ?thesis
  proof (cases "hm = []")
    case True
    with g' hm am assms(2) show ?thesis
      by (simp add: end_rule_def no_moves_def endGame_def)
  next
    case False
    show ?thesis
    proof (cases "am = []")
      case True
      with False g' hm am assms(2) show ?thesis
        by (simp add: end_rule_def no_moves_def endGame_def)
    next
      case amne: False
      with False g' hm am assms(2) show ?thesis
        by (simp add: end_rule_def no_moves_def)
    qed
  qed
qed

lemma movePlayer_Inr:
  assumes "movePlayer g p newPos sim = (Inr u, g')"
  shows "\<exists>new b1 b2. newPos = Some new \<and>
           (case (if p = HUMAN then humanPos g else aiPos g) of
              None \<Rightarrow> b1 = board g
            | Some old \<Rightarrow> write_cell (board g) old BLOCKED = Inr b1) \<and>
           write_cell b1 new (Piece p) = Inr b2 \<and>
           checkGameEnd (moved g p new b2) = (Inr u, g')"
  using assms unfolding movePlayer_def Let_def checkGameEndSimulation_eq moved_def
  by (auto split: sum.splits option.splits if_splits)

lemma makeHumanMove_Inr:
  assumes "makeHumanMove_game g row col = (Inr u, g')"
  shows "gamePhase g = playing \<and> currentPlayer g = HUMAN \<and>
         (\<exists>ms. getValidMoves (board g) (humanPos g) = Inr ms \<and> (row, col) \<in> set ms) \<and>
         (\<exists>g''. movePlayer g HUMAN (Some (row, col)) False = (Inr (), g'') \<and>
                g' = g''\<lparr>currentPlayer := AI\<rparr>)"
  using assms unfolding makeHumanMove_game_def
  by (auto simp: list_ex_iff split: sum.splits if_splits prod.splits)

lemma makeAIMove_Inr:
  assumes "makeAIMove_game cfg clock nn g = Some (Inr u, g')"
  shows "gamePhase g = playing \<and> currentPlayer g = AI \<and>
         (\<exists>ms. getValidMoves (board g) (aiPos g) = Inr ms \<and>
            (if ms = [] then g' = endGame g HUMAN
             else (\<exists>best s g''. enhancedMCTS cfg clock nn g ms = Some (Inr best, s) \<and>
                     movePlayer g AI best False = (Inr (), g'') \<and>
                     g' = g''\<lparr>currentPlayer := HUMAN\<rparr>)))"
  using assms unfolding makeAIMove_game_def
  by (auto split: sum.splits if_splits prod.splits option.splits)

lemma end_rule_currentPlayer: "end_rule g (g'\<lparr>currentPlayer := p\<rparr>) = end_rule g g'"
  by (simp add: end_rule_def no_moves_def)

lemma movePlayer_end_rule:
  assumes "movePlayer g p newPos sim = (Inr u, g')" and "gamePhase g = playing"
  shows "end_rule g g'"
proof -
  from assms(1) obtain new b2 where "checkGameEnd (moved g p new b2) = (Inr u, g')"
    using movePlayer_Inr by blast
  moreover have "gamePhase (moved g p new b2) = playing"
    using assms(2) by (simp add: moved_def)
  ultimately have "end_rule (moved g p new b2) g'"
    using checkGameEnd_end_rule by blast
  moreover have "winner (moved g p new b2) = winner g" by (simp add: moved_def)
  ultimately show ?thesis by (simp add: end_rule_def)
qed

lemma makeHumanMove_end_rule:
  assumes "makeHumanMove_game g row col = (Inr u, g')"
  shows "gamePhase g = playing \<and> end_rule g g'"
proof -
  from assms obtain g'' where pl: "gamePhase g = playing"
    and mv: "movePlayer g HUMAN (Some (row, col)) False = (Inr (), g'')"
    and g': "g' = g''\<lparr>currentPlayer := AI\<rparr>"
    using makeHumanMove_Inr by blast
  from mv pl have "end_rule g g''" by (rule movePlayer_end_rule)
  with pl g' show ?thesis by (simp add: end_rule_currentPlayer)
qed

lemma makeAIMove_end_rule:
  assumes "makeAIMove_game cfg clock nn g = Some (Inr u, g')" and "\<not> no_moves g AI"
  shows "gamePhase g = playing \<and> end_rule g g'"
proof -
  from assms(1) obtain ms where pl: "gamePhase g = playing"
    and ms: "getValidMoves (board g) (aiPos g) = Inr ms"
    and rest: "if ms = [] then g' = endGame g HUMAN
             else (\<exists>best s g''. enhancedMCTS cfg clock nn g ms = Some (Inr best, s) \<and>
                     movePlayer g AI best False = (Inr (), g'') \<and>
                     g' = g''\<lparr>currentPlayer := HUMAN\<rparr>)"
    using makeAIMove_Inr by blast
  from ms assms(2) have "ms \<noteq> []" by (auto simp: no_moves_def)
  with rest obtain best g'' where mv: "movePlayer g AI best False = (Inr (), g'')"
    and g': "g' = g''\<lparr>currentPlayer := HUMAN\<rparr>" by auto
  from mv pl have "end_rule g g''" by (rule movePlayer_end_rule)
  with pl g' show ?thesis by (simp add: end_rule_currentPlayer)
qed

lemma on_session_Inr:
  assumes "games gid = Some g" and "on_session games gid missing f = (Inr g', games')"
  shows "f g = (Inr (), g') \<and> games' = games(gid \<mapsto> g')"
  using assms unfolding on_session_def by (auto split: sum.splits prod.splits)

lemma makeAIMove_store_Inr:
  assumes "games gid = Some g" and "makeAIMove cfg clock nn games gid = Some (Inr g', games')"
  shows "makeAIMove_game cfg clock nn g = Some (Inr (), g') \<and> games' = games(gid \<mapsto> g')"
  using assms unfolding makeAIMove_def by (auto split: sum.splits prod.splits option.splits)

text \<open>
  C1 (amended). After a committed human or software move in the Playing phase the
  session is Ended exactly when the human or the software agent has no legal move
  from its position on the new board, whichever side has just moved, and stays in the
  Playing phase with the winner untouched otherwise. When exactly one side has no
  legal move the other side is the recorded winner; when neither side has one after a
  software move, the software agent is.
\<close>

theorem committed_move_end_rule:
  assumes "games gid = Some g"
    and "(mover = HUMAN \<and> makeHumanMove games gid row col = (Inr g', games')) \<or>
         (mover = AI \<and> makeAIMove cfg clock nn games gid = Some (Inr g', games') \<and> \<not> no_moves g AI)"
  shows "gamePhase g = playing \<and>
         (gamePhase g' = ended \<longleftrightarrow> no_moves g' HUMAN \<or> no_moves g' AI) \<and>
         (gamePhase g' \<noteq> ended \<longrightarrow> gamePhase g' = playing \<and> winner g' = winner g) \<and>
         (no_moves g' HUMAN \<and> \<not> no_moves g' AI \<longrightarrow> winner g' = Some AI) \<and>
         (\<not> no_moves g' HUMAN \<and> no_moves g' AI \<longrightarrow> winner g' = Some HUMAN) \<and>
         (no_moves g' HUMAN \<and> no_moves g' AI \<and> mover = AI \<longrightarrow> winner g' = Some AI)"
proof -
  from assms(2) have "gamePhase g = playing \<and> end_rule g g'"
  proof
    assume "mover = HUMAN \<and> makeHumanMove games gid row col = (Inr g', games')"
    with assms(1) have "makeHumanMove_game g row col = (Inr (), g')"
      unfolding makeHumanMove_def using on_session_Inr by blast
    then show ?thesis by (rule makeHumanMove_end_rule)
  next
    assume a: "mover = AI \<and> makeAIMove cfg clock nn games gid = Some (Inr g', games') \<and> \<not> no_moves g AI"
    with assms(1) have "makeAIMove_game cfg clock nn g = Some (Inr (), g')"
      using makeAIMove_store_Inr by blast
    with a show ?thesis using makeAIMove_end_rule by blast
  qed
  then show ?thesis by (simp add: end_rule_def)
qed

subsection \<open>Evaluation\<close>

lemma find_players_wf:
  assumes "wf_board b" and "\<forall>q \<in> set cells. in_bounds q"
  shows "\<exists>h a. find_players b cells (h0, a0) = Inr (h, a)"
  using assms(2)
proof (induction cells arbitrary: h0 a0)
  case Nil
  show ?case by simp
next
  case (Cons q cells)
  obtain row col where q: "q = (row, col)" by (cases q)
  from Cons.prems have "isValidPosition row col" by (simp add: q in_bounds_def)
  with assms(1) have "read_cell b row col = Inr (Some (b ! nat row ! nat col))"
    by (rule read_cell_wf)
  moreover from Cons.prems have "\<forall>q \<in> set cells. in_bounds q" by simp
  ultimately show ?case using Cons.IH by (simp add: q)
qed

lemma all_cells_in_bounds: "\<forall>q \<in> set all_cells. in_bounds q"
  by (auto simp: all_cells_def in_bounds_def isValidPosition_def BOARD_SIZE_def)

lemma count_moves_wf:
  assumes "wf_board b"
  shows "\<exists>n. count_moves b p = Inr n"
proof (cases p)
  case None
  then show ?thesis by (simp add: count_moves_def)
next
  case (Some q)
  with assms show ?thesis by (simp add: count_moves_def getValidMoves_wf)
qed

lemma heuristicEvaluation_wf:
  assumes "wf_board b"
  shows "\<exists>v. heuristicEvaluation b = Inr v \<and> 0 \<le> v \<and> v \<le> 1"
proof -
  from assms all_cells_in_bounds obtain h a
    where fp: "find_players b all_cells (None, None) = Inr (h, a)"
    using find_players_wf by blast
  from assms obtain hn where hn: "count_moves b h = Inr hn" using count_moves_wf by blast
  from assms obtain an where an: "count_moves b a = Inr an" using count_moves_wf by blast
  have eq: "heuristicEvaluation b =
      Inr (if an = 0 then 0 else if hn = 0 then 1 else div64 (real an) (real (hn + an)))"
    by (simp add: heuristicEvaluation_def fp hn an)
  have q0: "0 \<le> real an / real (hn + an)" by simp
  have q1: "real an / real (hn + an) \<le> 1"
  proof (cases "hn + an = 0")
    case True
    then show ?thesis by simp
  next
    case False
    then have "0 < hn + an" by simp
    then have "0 < real (hn + an)" by (simp only: of_nat_0_less_iff)
    moreover have "an \<le> hn + an" by simp
    then have "real an \<le> real (hn + an)" by (simp only: of_nat_le_iff)
    ultimately show ?thesis by (simp only: divide_le_eq_1_pos)
  qed
  from q0 have "0 \<le> div64 (real an) (real (hn + an))"
    unfolding div64_def by (rule round64_nonneg)
  moreover from q0 q1 have "div64 (real an) (real (hn + an)) \<le> 1"
    unfolding div64_def by (rule round64_le_one)
  ultimately show ?thesis using eq by auto
qed


subsection \<open>Failed calls\<close>

lemma place_ai_error: "place_ai u g = (Inl e, g') \<Longrightarrow> e = TypeError"
  unfolding place_ai_def Let_def
  by (auto split: sum.splits if_splits dest: read_cell_error write_cell_error getValidMoves_error)

lemma random_index:
  assumes "0 \<le> u" and "u < 1" and "0 < n"
  shows "0 \<le> \<lfloor>u * real n\<rfloor> \<and> \<lfloor>u * real n\<rfloor> < int n"
proof -
  from assms(1) have "0 \<le> u * real n" by simp
  then have lo: "0 \<le> \<lfloor>u * real n\<rfloor>" by simp
  from assms(2,3) have "u * real n < 1 * real n" by (simp only: mult_strict_right_mono of_nat_0_less_iff)
  then have "u * real n < real_of_int (int n)" by simp
  then have "\<lfloor>u * real n\<rfloor> < int n" by (simp only: floor_less_iff)
  with lo show ?thesis by simp
qed

lemma place_ai_wf:
  assumes "wf_board (board g)" and "0 \<le> u" and "u < 1"
  shows "\<exists>g'. place_ai u g = (Inr (), g')"
proof -
  have cb: "isValidPosition (fst center) (snd center)" and cin: "in_bounds center"
    by (simp_all add: center_def in_bounds_def isValidPosition_def BOARD_SIZE_def)
  from assms(1) cb obtain c where c: "read_cell (board g) (fst center) (snd center) = Inr (Some c)"
    using read_cell_wf by blast
  show ?thesis
  proof (cases "c = EMPTY")
    case True
    from assms(1) cin obtain b where "write_cell (board g) center (Piece AI) = Inr b"
      using write_cell_ok by blast
    with c True show ?thesis by (simp add: place_ai_def)
  next
    case False
    from assms(1) obtain ms where ms: "getValidMoves (board g) (Some center) = Inr ms"
      using getValidMoves_ok by blast
    show ?thesis
    proof (cases "ms = []")
      case True
      with c False ms show ?thesis by (simp add: place_ai_def)
    next
      case ne: False
      then have "0 < length ms" by simp
      with assms(2,3) have i: "0 \<le> \<lfloor>u * real (length ms)\<rfloor>" "\<lfloor>u * real (length ms)\<rfloor> < int (length ms)"
        using random_index by blast+
      then have "nat \<lfloor>u * real (length ms)\<rfloor> < length ms" by linarith
      then have "ms ! nat \<lfloor>u * real (length ms)\<rfloor> \<in> set ms" by (rule nth_mem)
      with assms(1) ms have "in_bounds (ms ! nat \<lfloor>u * real (length ms)\<rfloor>)"
        using getValidMoves_in_bounds by blast
      with assms(1) obtain b where "write_cell (board g) (ms ! nat \<lfloor>u * real (length ms)\<rfloor>) (Piece AI) = Inr b"
        using write_cell_ok by blast
      with c False ms ne i show ?thesis by (simp add: place_ai_def Let_def)
    qed
  qed
qed

lemma place_errors:
  assumes "placeStartingPosition_game u g row col = (Inl e, g')"
    and "e \<noteq> TypeError \<or> (wf_board (board g) \<and> 0 \<le> u \<and> u < 1)"
  shows "g' = g"
proof (cases "gamePhase g \<noteq> starting")
  case True
  with assms(1) show ?thesis by (simp add: placeStartingPosition_game_def)
next
  case st: False
  show ?thesis
  proof (cases "read_cell (board g) row col")
    case (Inl e')
    with st assms(1) show ?thesis by (simp add: placeStartingPosition_game_def)
  next
    case (Inr c)
    show ?thesis
    proof (cases "c = Some EMPTY")
      case False
      with st Inr assms(1) show ?thesis by (simp add: placeStartingPosition_game_def)
    next
      case True
      show ?thesis
      proof (cases "write_cell (board g) (row, col) (Piece HUMAN)")
        case (Inl e')
        with st Inr True assms(1) show ?thesis by (simp add: placeStartingPosition_game_def)
      next
        case wr: (Inr b)
        let ?g1 = "g\<lparr>board := b, humanPos := Some (row, col)\<rparr>"
        from st Inr True wr assms(1) obtain g1' where pa: "place_ai u ?g1 = (Inl e, g1')"
          by (auto simp: placeStartingPosition_game_def split: prod.splits sum.splits)
        then have te: "e = TypeError" by (rule place_ai_error)
        with assms(2) have wf: "wf_board (board g)" and u: "0 \<le> u" "u < 1" by simp_all
        from wr wf have "wf_board (board ?g1)" by (simp add: write_cell_wf)
        with u obtain g2 where "place_ai u ?g1 = (Inr (), g2)" using place_ai_wf by blast
        with pa show ?thesis by simp
      qed
    qed
  qed
qed

lemma wf_game_playing:
  assumes "wf_game g" and "gamePhase g \<noteq> starting"
  shows "wf_board (board g) \<and> pos_ok (humanPos g) \<and> pos_ok (aiPos g)"
  using assms by (simp add: wf_game_def)

lemma pos_ok_Some: "pos_ok p \<Longrightarrow> p \<noteq> None"
  by (cases p) (simp_all add: pos_ok_def)

lemma movePlayer_total:
  assumes "wf_board (board g)" and "pos_ok (humanPos g)" and "pos_ok (aiPos g)"
    and "in_bounds new"
  shows "\<exists>g'. movePlayer g p (Some new) sim = (Inr (), g')"
proof -
  from assms obtain b2 where wf2: "wf_board b2"
    and mp: "movePlayer g p (Some new) sim = checkGameEnd (moved g p new b2)"
    using movePlayer_wf by blast
  have "wf_board (board (moved g p new b2))" using wf2 by (simp add: moved_def)
  moreover have "humanPos (moved g p new b2) \<noteq> None"
    using assms(2) by (auto simp: moved_def dest: pos_ok_Some)
  moreover have "aiPos (moved g p new b2) \<noteq> None"
    using assms(3) by (auto simp: moved_def dest: pos_ok_Some)
  ultimately obtain g' where "checkGameEnd (moved g p new b2) = (Inr (), g')"
    using checkGameEnd_wf by blast
  with mp show ?thesis by simp
qed

lemma some_move_iff: "list_ex (\<lambda>move. fst move = row \<and> snd move = col) ms \<longleftrightarrow> (row, col) \<in> set ms"
  by (induction ms) (auto simp: prod_eq_iff)

lemma human_errors:
  assumes "makeHumanMove_game g row col = (Inl e, g')"
    and "e \<noteq> TypeError \<or> wf_game g"
  shows "g' = g"
proof (cases "gamePhase g \<noteq> playing \<or> currentPlayer g \<noteq> HUMAN")
  case True
  with assms(1) show ?thesis by (simp add: makeHumanMove_game_def)
next
  case guard: False
  show ?thesis
  proof (cases "getValidMoves (board g) (humanPos g)")
    case (Inl e')
    with guard assms(1) show ?thesis by (simp add: makeHumanMove_game_def)
  next
    case (Inr ms)
    show ?thesis
    proof (cases "(row, col) \<in> set ms")
      case False
      with guard Inr assms(1) show ?thesis
        by (simp add: makeHumanMove_game_def some_move_iff)
    next
      case True
      with guard Inr assms(1) have mp: "movePlayer g HUMAN (Some (row, col)) False = (Inl e, g')"
        by (auto simp: makeHumanMove_game_def some_move_iff split: prod.splits sum.splits)
      then have "e = TypeError" by (rule movePlayer_error)
      with assms(2) have wf: "wf_game g" by simp
      with guard have w: "wf_board (board g)" "pos_ok (humanPos g)" "pos_ok (aiPos g)"
        using wf_game_playing by force+
      from w(1) Inr True have "in_bounds (row, col)" using getValidMoves_in_bounds by blast
      with w obtain g2 where "movePlayer g HUMAN (Some (row, col)) False = (Inr (), g2)"
        using movePlayer_total by blast
      with mp show ?thesis by simp
    qed
  qed
qed

lemma select_best_mem:
  "fst (select_best s ms (bm, bs)) = bm \<or> fst (select_best s ms (bm, bs)) \<in> Some ` set ms"
proof (induction ms arbitrary: bm bs)
  case Nil
  show ?case by simp
next
  case (Cons m ms)
  show ?case
  proof (cases "winRate s m > bs")
    case True
    with Cons.IH [of "Some m" "winRate s m"] show ?thesis by auto
  next
    case False
    with Cons.IH [of bm bs] show ?thesis by auto
  qed
qed

lemma enhancedMCTS_Inr:
  assumes "enhancedMCTS cfg clock nn g ms = Some (Inr best, s)"
  shows "best = fst (select_best s ms (first_move ms, 0))"
  using assms unfolding enhancedMCTS_def Let_def
  by (auto split: option.splits prod.splits sum.splits)

lemma enhancedMCTS_best_mem:
  assumes "enhancedMCTS cfg clock nn g ms = Some (Inr best, s)" and "ms \<noteq> []"
  shows "\<exists>m \<in> set ms. best = Some m"
proof -
  from assms(2) obtain m0 rest where ms: "ms = m0 # rest" by (cases ms) auto
  then have fm: "first_move ms = Some m0" by (simp add: first_move_def)
  from assms(1) have "best = fst (select_best s ms (first_move ms, 0))"
    by (rule enhancedMCTS_Inr)
  with select_best_mem [of s ms "first_move ms" 0] fm ms show ?thesis by auto
qed

lemma ai_errors:
  assumes "makeAIMove_game cfg clock nn g = Some (Inl e, g')"
    and "e \<noteq> TypeError \<or> wf_game g"
  shows "g' = g"
proof (cases "gamePhase g \<noteq> playing \<or> currentPlayer g \<noteq> AI")
  case True
  with assms(1) show ?thesis by (simp add: makeAIMove_game_def)
next
  case guard: False
  show ?thesis
  proof (cases "getValidMoves (board g) (aiPos g)")
    case (Inl e')
    with guard assms(1) show ?thesis by (simp add: makeAIMove_game_def)
  next
    case (Inr ms)
    show ?thesis
    proof (cases "ms = []")
      case True
      with guard Inr assms(1) show ?thesis by (simp add: makeAIMove_game_def)
    next
      case ne: False
      show ?thesis
      proof (cases "enhancedMCTS cfg clock nn g ms")
        case None
        with guard Inr ne assms(1) show ?thesis by (simp add: makeAIMove_game_def)
      next
        case (Some res)
        obtain r s where res: "res = (r, s)" by (cases res)
        show ?thesis
        proof (cases r)
          case (Inl e')
          with guard Inr ne Some res assms(1) show ?thesis by (simp add: makeAIMove_game_def)
        next
          case best: (Inr best)
          with guard Inr ne Some res assms(1)
          have mp: "movePlayer g AI best False = (Inl e, g')"
            by (auto simp: makeAIMove_game_def split: prod.splits sum.splits)
          then have "e = TypeError" by (rule movePlayer_error)
          with assms(2) have wf: "wf_game g" by simp
          with guard have w: "wf_board (board g)" "pos_ok (humanPos g)" "pos_ok (aiPos g)"
            using wf_game_playing by force+
          from Some res best ne obtain m where m: "m \<in> set ms" "best = Some m"
            using enhancedMCTS_best_mem by blast
          from w(1) Inr m(1) have "in_bounds m" using getValidMoves_in_bounds by blast
          with w obtain g2 where "movePlayer g AI (Some m) False = (Inr (), g2)"
            using movePlayer_total by blast
          with mp m(2) show ?thesis by simp
        qed
      qed
    qed
  qed
qed

lemma undo_total_wf:
  assumes "wf_game g" and "gamePhase g \<noteq> ended" and "moveHistory g \<noteq> []"
    and "0 \<le> lastHumanMoveIndex (moveHistory g) (length (moveHistory g))"
  shows "\<exists>g'. undoLastMove_game g = (Inr (), g')"
proof -
  let ?idx = "lastHumanMoveIndex (moveHistory g) (length (moveHistory g))"
  let ?m = "lastHumanMove g"
  have "?idx < int (length (moveHistory g))"
    using lastHumanMoveIndex_range [of "moveHistory g" "length (moveHistory g)"] by simp
  with assms(4) have "nat ?idx < length (moveHistory g)" by linarith
  then have "?m \<in> set (moveHistory g)" unfolding lastHumanMove_def by (rule nth_mem)
  with assms(1) have rec: "wf_record ?m" by (simp add: wf_game_def list_all_iff)
  then have to: "in_bounds (mv_to ?m)" by (simp add: wf_record_def)
  from rec obtain src where src: "mv_from ?m = Some src" and srcb: "in_bounds src"
    by (cases "mv_from ?m") (simp_all add: wf_record_def pos_ok_def)
  from assms(1) have wf: "wf_board (board g)" by (simp add: wf_game_def)
  from wf to obtain b1 where b1: "write_cell (board g) (mv_to ?m) EMPTY = Inr b1"
    using write_cell_ok by blast
  from b1 wf have "wf_board b1" by (rule write_cell_wf)
  with srcb obtain b2 where b2: "write_cell b1 src (Piece (mv_player ?m)) = Inr b2"
    using write_cell_ok by blast
  show ?thesis
    unfolding undo_unfold [OF assms(2,3,4)] Let_def
    by (simp add: b1 src b2)
qed

lemma undo_errors_wf:
  assumes "undoLastMove_game g = (Inl e, g')" and "e \<noteq> TypeError \<or> wf_game g"
  shows "g' = g"
proof (cases "e = TypeError")
  case False
  with assms(1) show ?thesis by (simp add: undo_errors)
next
  case True
  with assms(2) have wf: "wf_game g" by simp
  have range: "-1 \<le> lastHumanMoveIndex (moveHistory g) (length (moveHistory g))"
    using lastHumanMoveIndex_range by blast
  show ?thesis
  proof (cases "gamePhase g \<noteq> ended \<and> moveHistory g \<noteq> [] \<and>
      lastHumanMoveIndex (moveHistory g) (length (moveHistory g)) \<noteq> -1")
    case False
    with assms(1) show ?thesis
      unfolding undoLastMove_game_def Let_def by (auto split: if_splits)
  next
    case ok: True
    with range have "0 \<le> lastHumanMoveIndex (moveHistory g) (length (moveHistory g))" by linarith
    with wf ok obtain g2 where "undoLastMove_game g = (Inr (), g2)"
      using undo_total_wf by blast
    with assms(1) show ?thesis by simp
  qed
qed

lemma on_session_Inl:
  assumes "on_session games gid missing f = (Inl e, games')"
  shows "(games gid = None \<and> games' = games) \<or>
         (\<exists>g g'. games gid = Some g \<and> f g = (Inl e, g') \<and> games' = games(gid \<mapsto> g'))"
  using assms unfolding on_session_def
  by (auto split: option.splits sum.splits prod.splits)

lemma on_session_unchanged:
  assumes "on_session games gid missing f = (Inl e, games')"
    and "\<And>g g'. games gid = Some g \<Longrightarrow> f g = (Inl e, g') \<Longrightarrow> g' = g"
  shows "games' = games"
proof -
  from assms(1) consider "games gid = None \<and> games' = games"
    | g g' where "games gid = Some g" "f g = (Inl e, g')" "games' = games(gid \<mapsto> g')"
    using on_session_Inl by blast
  then show ?thesis
  proof cases
    case 1
    then show ?thesis by simp
  next
    case 2
    with assms(2) have "g' = g" by blast
    with 2 show ?thesis by (simp add: map_upd_triv)
  qed
qed

lemma makeAIMove_unchanged:
  assumes "makeAIMove cfg clock nn games gid = Some (Inl e, games')"
    and "\<And>g g'. games gid = Some g \<Longrightarrow> makeAIMove_game cfg clock nn g = Some (Inl e, g') \<Longrightarrow> g' = g"
  shows "games' = games"
proof (cases "games gid")
  case None
  with assms(1) show ?thesis by (simp add: makeAIMove_def)
next
  case (Some g)
  with assms(1) obtain g' where r: "makeAIMove_game cfg clock nn g = Some (Inl e, g')"
    and g': "games' = games(gid \<mapsto> g')"
    unfolding makeAIMove_def by (auto split: option.splits sum.splits prod.splits)
  from Some r have "g' = g" by (rule assms(2))
  with g' Some show ?thesis by (simp add: map_upd_triv)
qed

text \<open>
  C6. A call of \<open>placeStartingPosition\<close>, \<open>makeHumanMove\<close>, \<open>makeAIMove\<close> or
  \<open>undoLastMove\<close> that throws leaves \<open>activeGames\<close>, and so every field of the
  session, as it was: for each of the engine's own errors (wrong phase or turn,
  occupied or illegal position, unknown session, nothing to undo) on any session, and
  for every error on a well-formed session.
\<close>

theorem failed_call_no_mutation:
  assumes "e \<noteq> TypeError \<or> ((\<forall>g. games gid = Some g \<longrightarrow> wf_game g) \<and> 0 \<le> u \<and> u < 1)"
  shows "(placeStartingPosition u games gid row col = (Inl e, games') \<longrightarrow> games' = games) \<and>
         (makeHumanMove games gid row col = (Inl e, games') \<longrightarrow> games' = games) \<and>
         (makeAIMove cfg clock nn games gid = Some (Inl e, games') \<longrightarrow> games' = games) \<and>
         (undoLastMove games gid = (Inl e, games') \<longrightarrow> games' = games)"
proof (intro conjI impI)
  assume a: "placeStartingPosition u games gid row col = (Inl e, games')"
  show "games' = games"
  proof (rule on_session_unchanged [OF a [unfolded placeStartingPosition_def]])
    fix g g' assume g: "games gid = Some g" and r: "placeStartingPosition_game u g row col = (Inl e, g')"
    from assms g have "e \<noteq> TypeError \<or> (wf_board (board g) \<and> 0 \<le> u \<and> u < 1)"
      by (auto simp: wf_game_def)
    with r show "g' = g" by (rule place_errors)
  qed
next
  assume a: "makeHumanMove games gid row col = (Inl e, games')"
  show "games' = games"
  proof (rule on_session_unchanged [OF a [unfolded makeHumanMove_def]])
    fix g g' assume g: "games gid = Some g" and r: "makeHumanMove_game g row col = (Inl e, g')"
    from assms g have "e \<noteq> TypeError \<or> wf_game g" by auto
    with r show "g' = g" by (rule human_errors)
  qed
next
  assume a: "makeAIMove cfg clock nn games gid = Some (Inl e, games')"
  show "games' = games"
  proof (rule makeAIMove_unchanged [OF a])
    fix g g' assume g: "games gid = Some g" and r: "makeAIMove_game cfg clock nn g = Some (Inl e, g')"
    from assms g have "e \<noteq> TypeError \<or> wf_game g" by auto
    with r show "g' = g" by (rule ai_errors)
  qed
next
  assume a: "undoLastMove games gid = (Inl e, games')"
  show "games' = games"
  proof (rule on_session_unchanged [OF a [unfolded undoLastMove_def]])
    fix g g' assume g: "games gid = Some g" and r: "undoLastMove_game g = (Inl e, g')"
    from assms g have "e \<noteq> TypeError \<or> wf_game g" by auto
    with r show "g' = g" by (rule undo_errors_wf)
  qed
qed

subsection \<open>What undo changes\<close>

lemma undo_Inr:
  assumes "undoLastMove_game g = (Inr u, g')"
  shows "gamePhase g \<noteq> ended \<and> moveHistory g \<noteq> [] \<and>
     0 \<le> lastHumanMoveIndex (moveHistory g) (length (moveHistory g)) \<and>
     moveHistory g' = take (nat (lastHumanMoveIndex (moveHistory g) (length (moveHistory g))) - 1) (moveHistory g) \<and>
     (if moveHistory g' = [] then
        g' = g\<lparr>moveHistory := [], gamePhase := starting, currentPlayer := HUMAN, humanPos := None,
                aiPos := None, winner := None, board := initializeBoard\<rparr>
      else
        (\<exists>b1 b2. write_cell (board g) (mv_to (lastHumanMove g)) EMPTY = Inr b1 \<and>
           (case mv_from (lastHumanMove g) of
              None \<Rightarrow> b2 = b1
            | Some src \<Rightarrow> write_cell b1 src (Piece (mv_player (lastHumanMove g))) = Inr b2) \<and>
           g' = g\<lparr>moveHistory := moveHistory g', board := b2,
                   humanPos := mv_from (lastHumanMove g), currentPlayer := HUMAN\<rparr>))"
proof -
  from assms have pre: "gamePhase g \<noteq> ended" "moveHistory g \<noteq> []"
    "0 \<le> lastHumanMoveIndex (moveHistory g) (length (moveHistory g))"
    using undo_success_pre by blast+
  define h' where "h' = take (nat (lastHumanMoveIndex (moveHistory g) (length (moveHistory g))) - 1) (moveHistory g)"
  have unf: "undoLastMove_game g =
     (if h' = [] then
          (Inr (), g\<lparr>moveHistory := h', gamePhase := starting, currentPlayer := HUMAN, humanPos := None,
                     aiPos := None, winner := None, board := initializeBoard\<rparr>)
        else
          (case write_cell (board g) (mv_to (lastHumanMove g)) EMPTY of
             Inl e \<Rightarrow> (Inl e, g\<lparr>moveHistory := h'\<rparr>)
           | Inr b1 \<Rightarrow>
               (case (case mv_from (lastHumanMove g) of
                        None \<Rightarrow> Inr b1
                      | Some src \<Rightarrow> write_cell b1 src (Piece (mv_player (lastHumanMove g)))) of
                  Inl e \<Rightarrow> (Inl e, g\<lparr>moveHistory := h', board := b1\<rparr>)
                | Inr b2 \<Rightarrow>
                    (Inr (), g\<lparr>moveHistory := h', board := b2, humanPos := mv_from (lastHumanMove g),
                               currentPlayer := HUMAN\<rparr>))))"
    unfolding undo_unfold [OF pre] Let_def h'_def [symmetric] by (rule refl)
  show ?thesis
  proof (cases "h' = []")
    case True
    with assms unf have g': "g' = g\<lparr>moveHistory := h', gamePhase := starting, currentPlayer := HUMAN,
        humanPos := None, aiPos := None, winner := None, board := initializeBoard\<rparr>"
      by simp
    then have "moveHistory g' = h'" by simp
    with pre True g' show ?thesis unfolding h'_def [symmetric] by simp
  next
    case False
    with assms unf obtain b1 b2 where b1: "write_cell (board g) (mv_to (lastHumanMove g)) EMPTY = Inr b1"
      and b2: "(case mv_from (lastHumanMove g) of None \<Rightarrow> Inr b1
                | Some src \<Rightarrow> write_cell b1 src (Piece (mv_player (lastHumanMove g)))) = Inr b2"
      and g': "g' = g\<lparr>moveHistory := h', board := b2,
                   humanPos := mv_from (lastHumanMove g), currentPlayer := HUMAN\<rparr>"
      by (auto split: sum.splits)
    from b2 have b2': "(case mv_from (lastHumanMove g) of None \<Rightarrow> b2 = b1
        | Some src \<Rightarrow> write_cell b1 src (Piece (mv_player (lastHumanMove g))) = Inr b2)"
      by (auto split: option.splits)
    from g' have mh: "moveHistory g' = h'" by simp
    from g' have "g' = g\<lparr>moveHistory := moveHistory g', board := b2,
                   humanPos := mv_from (lastHumanMove g), currentPlayer := HUMAN\<rparr>"
      unfolding mh .
    with pre False b1 b2' mh show ?thesis unfolding h'_def [symmetric] by auto
  qed
qed

lemma undo_frame_game:
  assumes "undoLastMove_game g = (Inr u, g')" and "moveHistory g' \<noteq> []"
  shows "aiPos g' = aiPos g \<and> gamePhase g' = gamePhase g \<and> winner g' = winner g \<and>
         humanPos g' = mv_from (lastHumanMove g) \<and> currentPlayer g' = HUMAN \<and>
         mv_player (lastHumanMove g) = HUMAN \<and>
         (\<forall>r c. (r, c) \<noteq> mv_to (lastHumanMove g) \<and> Some (r, c) \<noteq> mv_from (lastHumanMove g) \<longrightarrow>
                read_cell (board g') r c = read_cell (board g) r c)"
proof -
  from undo_Inr [OF assms(1)] assms(2) obtain b1 b2
    where idx: "0 \<le> lastHumanMoveIndex (moveHistory g) (length (moveHistory g))"
      and b1: "write_cell (board g) (mv_to (lastHumanMove g)) EMPTY = Inr b1"
      and b2: "(case mv_from (lastHumanMove g) of None \<Rightarrow> b2 = b1
                | Some src \<Rightarrow> write_cell b1 src (Piece (mv_player (lastHumanMove g))) = Inr b2)"
      and g': "g' = g\<lparr>moveHistory := moveHistory g', board := b2,
                   humanPos := mv_from (lastHumanMove g), currentPlayer := HUMAN\<rparr>"
    by auto
  have pl: "mv_player (lastHumanMove g) = HUMAN"
    unfolding lastHumanMove_def using idx by (rule lastHumanMoveIndex_found)
  have frame: "read_cell b2 r c = read_cell (board g) r c"
    if "(r, c) \<noteq> mv_to (lastHumanMove g)" and "Some (r, c) \<noteq> mv_from (lastHumanMove g)" for r c
  proof -
    from b1 that(1) have 1: "read_cell b1 r c = read_cell (board g) r c"
      by (rule read_write_other)
    have "read_cell b2 r c = read_cell b1 r c"
    proof (cases "mv_from (lastHumanMove g)")
      case None
      with b2 show ?thesis by simp
    next
      case (Some src)
      with b2 have "write_cell b1 src (Piece (mv_player (lastHumanMove g))) = Inr b2" by simp
      moreover from Some that(2) have "(r, c) \<noteq> src" by auto
      ultimately show ?thesis by (rule read_write_other)
    qed
    with 1 show ?thesis by simp
  qed
  have "board g' = b2" by (subst g') simp
  with frame have "\<forall>r c. (r, c) \<noteq> mv_to (lastHumanMove g) \<and> Some (r, c) \<noteq> mv_from (lastHumanMove g) \<longrightarrow>
                read_cell (board g') r c = read_cell (board g) r c" by simp
  moreover have "aiPos g' = aiPos g" "gamePhase g' = gamePhase g" "winner g' = winner g"
    "humanPos g' = mv_from (lastHumanMove g)" "currentPlayer g' = HUMAN"
    by (subst g', simp)+
  ultimately show ?thesis using pl by blast
qed

text \<open>
  C10. After a successful undo that leaves the move history non-empty, the software
  agent's position is unchanged and so is every board cell other than the source and
  the destination of the human move that was reverted: what the software agent's
  dropped move did to the board stays.
\<close>

theorem undo_frame:
  assumes "games gid = Some g"
    and "undoLastMove games gid = (Inr g', games')"
    and "moveHistory g' \<noteq> []"
  shows "aiPos g' = aiPos g \<and> mv_player (lastHumanMove g) = HUMAN \<and>
         (\<forall>r c. (r, c) \<noteq> mv_to (lastHumanMove g) \<and> Some (r, c) \<noteq> mv_from (lastHumanMove g) \<longrightarrow>
                read_cell (board g') r c = read_cell (board g) r c)"
proof -
  from assms(1,2) have "undoLastMove_game g = (Inr (), g')"
    unfolding undoLastMove_def using on_session_Inr by blast
  from undo_frame_game [OF this assms(3)] show ?thesis by blast
qed

lemma demo_run:
  "placeStartingPosition_game 0 newGame 1 1 = (Inr (), demo1)"
  "makeHumanMove_game demo1 2 2 = (Inr (), demo2)"
  "makeAIMove_game demo_cfg still_clock level_net demo2 = Some (Inr (), demo3)"
  "makeHumanMove_game demo3 3 2 = (Inr (), demo4)"
  "makeAIMove_game demo_cfg still_clock level_net demo4 = Some (Inr (), demo5)"
  "undoLastMove_game demo5 = (Inr (), demo6)"
  "undoLastMove_game demo4 = (Inr (), demo4_undone)"
  "undoLastMove_game demo3 = (Inr (), newGame)"
  by code_simp+

lemma trap_run:
  "placeStartingPosition_game 0 newGame 1 0 = (Inr (), trap1)"
  "makeHumanMove_game trap1 1 1 = (Inr (), trap2)"
  "makeAIMove_game demo_cfg still_clock level_net trap2 = Some (Inr (), trap3)"
  "makeHumanMove_game trap3 0 1 = (Inr (), trap4)"
  "makeAIMove_game demo_cfg still_clock level_net trap4 = Some (Inr (), trap5)"
  "makeHumanMove_game trap5 0 0 = (Inr (), trap6)"
  by code_simp+

lemma demo_wf: "wf_game demo3" "wf_game demo5" "wf_board (board demo3)"
  by code_simp+

lemma on_session_single:
  assumes "f g = (Inr (), g')"
  shows "on_session [gid \<mapsto> g] gid missing f = (Inr g', [gid \<mapsto> g'])"
  using assms by (simp add: on_session_def)

lemma makeAIMove_single:
  assumes "makeAIMove_game cfg clock nn g = Some (Inr (), g')"
  shows "makeAIMove cfg clock nn [gid \<mapsto> g] gid = Some (Inr g', [gid \<mapsto> g'])"
  using assms by (simp add: makeAIMove_def)

lemma trap_facts:
  "gamePhase trap5 = playing" "gamePhase trap6 = ended" "currentPlayer trap6 = AI"
  "winner trap6 = Some AI"
  "getValidMoves (board trap6) (aiPos trap6) = Inr [(0, 3), (1, 2), (1, 4), (0, 2), (0, 4), (2, 2), (2, 4)]"
  "undoLastMove_game trap6 = (Inl CannotUndoEnded, trap6)"
  by code_simp+

text \<open>
  C1 as stated fails: the human steps into the corner (0, 0) it has walled in itself.
  The session ends although the side now to act, the software agent, has seven legal
  moves, and the winner recorded is not the side that has just moved.
\<close>

theorem committed_move_end_rule_counterexample:
  "makeHumanMove [''t'' \<mapsto> trap5] ''t'' 0 0 = (Inr trap6, [''t'' \<mapsto> trap6]) \<and>
   gamePhase trap5 = playing \<and> gamePhase trap6 = ended \<and> currentPlayer trap6 = AI \<and>
   getValidMoves (board trap6) (aiPos trap6) = Inr [(0, 3), (1, 2), (1, 4), (0, 2), (0, 4), (2, 2), (2, 4)] \<and>
   winner trap6 = Some AI"
proof -
  have "makeHumanMove [''t'' \<mapsto> trap5] ''t'' 0 0 = (Inr trap6, [''t'' \<mapsto> trap6])"
    unfolding makeHumanMove_def using trap_run(6) by (rule on_session_single)
  with trap_facts(1-5) show ?thesis by blast
qed

text \<open>The amended rule at that move.\<close>

theorem committed_move_end_rule_witness:
  "[''t'' \<mapsto> trap5] ''t'' = Some trap5 \<and>
   makeHumanMove [''t'' \<mapsto> trap5] ''t'' 0 0 = (Inr trap6, [''t'' \<mapsto> trap6]) \<and>
   no_moves trap6 HUMAN \<and> \<not> no_moves trap6 AI \<and>
   gamePhase trap5 = playing \<and> gamePhase trap6 = ended \<and> winner trap6 = Some AI"
proof -
  have h1: "[''t'' \<mapsto> trap5] ''t'' = Some trap5" by simp
  have h2: "makeHumanMove [''t'' \<mapsto> trap5] ''t'' 0 0 = (Inr trap6, [''t'' \<mapsto> trap6])"
    unfolding makeHumanMove_def using trap_run(6) by (rule on_session_single)
  have nm: "no_moves trap6 HUMAN" by code_simp
  have am: "\<not> no_moves trap6 AI" by code_simp
  from committed_move_end_rule [OF h1 disjI1 [OF conjI [OF refl h2]]] nm am
  have "gamePhase trap5 = playing \<and> gamePhase trap6 = ended \<and> winner trap6 = Some AI"
    by blast
  with h1 h2 nm am show ?thesis by blast
qed

text \<open>
  C2. Placement at (1, 1), human move to (2, 2), software move, undo: the session
  returned is the blank session of \<open>createGame\<close> (phase Starting, empty board, no
  positions), not the session as it was after the placement. The placement is not a
  record of the move history, so the history is empty once both moves are dropped and
  the reset branch of \<open>undoLastMove\<close> runs.
\<close>

theorem undo_after_first_exchange_resets:
  "placeStartingPosition 0 [''d'' \<mapsto> newGame] ''d'' 1 1 = (Inr demo1, [''d'' \<mapsto> demo1]) \<and>
   makeHumanMove [''d'' \<mapsto> demo1] ''d'' 2 2 = (Inr demo2, [''d'' \<mapsto> demo2]) \<and>
   makeAIMove demo_cfg still_clock level_net [''d'' \<mapsto> demo2] ''d'' = Some (Inr demo3, [''d'' \<mapsto> demo3]) \<and>
   undoLastMove [''d'' \<mapsto> demo3] ''d'' = (Inr newGame, [''d'' \<mapsto> newGame]) \<and>
   gamePhase demo1 = playing \<and> gamePhase newGame = starting \<and> newGame \<noteq> demo1"
proof -
  have 1: "placeStartingPosition 0 [''d'' \<mapsto> newGame] ''d'' 1 1 = (Inr demo1, [''d'' \<mapsto> demo1])"
    unfolding placeStartingPosition_def using demo_run(1) by (rule on_session_single)
  have 2: "makeHumanMove [''d'' \<mapsto> demo1] ''d'' 2 2 = (Inr demo2, [''d'' \<mapsto> demo2])"
    unfolding makeHumanMove_def using demo_run(2) by (rule on_session_single)
  have 3: "makeAIMove demo_cfg still_clock level_net [''d'' \<mapsto> demo2] ''d'' = Some (Inr demo3, [''d'' \<mapsto> demo3])"
    using demo_run(3) by (rule makeAIMove_single)
  have 4: "undoLastMove [''d'' \<mapsto> demo3] ''d'' = (Inr newGame, [''d'' \<mapsto> newGame])"
    unfolding undoLastMove_def using demo_run(8) by (rule on_session_single)
  have 5: "gamePhase demo1 = playing" "gamePhase newGame = starting"
    by (simp_all add: demo1_def newGame_def)
  then have "newGame \<noteq> demo1" by auto
  with 1 2 3 4 5 show ?thesis by blast
qed


text \<open>A human move to a cell that is not adjacent, on the session \<open>demo3\<close>.\<close>

theorem failed_call_no_mutation_witness:
  "wf_game demo3 \<and>
   makeHumanMove [''d'' \<mapsto> demo3] ''d'' 6 6 = (Inl InvalidMove, [''d'' \<mapsto> demo3])"
proof -
  have wf: "\<forall>g. [''d'' \<mapsto> demo3] ''d'' = Some g \<longrightarrow> wf_game g"
    using demo_wf(1) by simp
  then have h: "InvalidMove \<noteq> TypeError \<or>
      ((\<forall>g. [''d'' \<mapsto> demo3] ''d'' = Some g \<longrightarrow> wf_game g) \<and> (0::real) \<le> 0 \<and> (0::real) < 1)"
    by simp
  have "fst (makeHumanMove_game demo3 6 6) = Inl InvalidMove" by code_simp
  then obtain g' where "makeHumanMove_game demo3 6 6 = (Inl InvalidMove, g')"
    by (cases "makeHumanMove_game demo3 6 6") simp
  then have "makeHumanMove [''d'' \<mapsto> demo3] ''d'' 6 6 = (Inl InvalidMove, [''d'' \<mapsto> g'])"
    by (simp add: makeHumanMove_def on_session_def)
  then obtain games' where r: "makeHumanMove [''d'' \<mapsto> demo3] ''d'' 6 6 = (Inl InvalidMove, games')"
    by blast
  from failed_call_no_mutation [of InvalidMove "[''d'' \<mapsto> demo3]" "''d''" 0 6 6 games', OF h] r
  have "games' = [''d'' \<mapsto> demo3]" by blast
  with r demo_wf(1) show ?thesis by blast
qed

text \<open>
  Undo on \<open>demo5\<close>: the software agent stays on (1, 3) and the cell (2, 3) it left
  stays BLOCKED.
\<close>

theorem undo_frame_witness:
  "[''d'' \<mapsto> demo5] ''d'' = Some demo5 \<and>
   undoLastMove [''d'' \<mapsto> demo5] ''d'' = (Inr demo6, [''d'' \<mapsto> demo6]) \<and>
   moveHistory demo6 \<noteq> [] \<and>
   aiPos demo6 = aiPos demo5 \<and> mv_player (lastHumanMove demo5) = HUMAN \<and>
   read_cell (board demo5) 2 3 = Inr (Some BLOCKED) \<and>
   read_cell (board demo6) 2 3 = read_cell (board demo5) 2 3"
proof -
  have h1: "[''d'' \<mapsto> demo5] ''d'' = Some demo5" by simp
  have h2: "undoLastMove [''d'' \<mapsto> demo5] ''d'' = (Inr demo6, [''d'' \<mapsto> demo6])"
    unfolding undoLastMove_def using demo_run(6) by (rule on_session_single)
  have h3: "moveHistory demo6 \<noteq> []" by (simp add: demo6_def)
  have side: "(2, 3) \<noteq> mv_to (lastHumanMove demo5)" "Some (2, 3) \<noteq> mv_from (lastHumanMove demo5)"
    "read_cell (board demo5) 2 3 = Inr (Some BLOCKED)"
    by code_simp+
  from undo_frame [OF h1 h2 h3] side(1,2)
  have "aiPos demo6 = aiPos demo5 \<and> mv_player (lastHumanMove demo5) = HUMAN \<and>
        read_cell (board demo6) 2 3 = read_cell (board demo5) 2 3"
    by blast
  with h1 h2 h3 side(3) show ?thesis by blast
qed

subsection \<open>Move, then undo\<close>

lemma board_ext:
  assumes "wf_board b" and "wf_board b'"
    and "\<And>r c. isValidPosition r c \<Longrightarrow> read_cell b r c = read_cell b' r c"
  shows "b = b'"
proof (rule nth_equalityI)
  from assms(1,2) show "length b = length b'" by (simp add: wf_board_def)
next
  fix i assume "i < length b"
  with assms(1) have i: "i < 7" by (simp add: wf_board_def)
  from assms(1,2) i have li: "length (b ! i) = 7" "length (b' ! i) = 7"
    by (simp_all add: wf_board_nth)
  show "b ! i = b' ! i"
  proof (rule nth_equalityI)
    from li show "length (b ! i) = length (b' ! i)" by simp
  next
    fix j assume "j < length (b ! i)"
    with li have j: "j < 7" by simp
    from i j have v: "isValidPosition (int i) (int j)"
      by (simp add: isValidPosition_def BOARD_SIZE_def)
    from assms(1) v have "read_cell b (int i) (int j) = Inr (Some (b ! nat (int i) ! nat (int j)))"
      by (rule read_cell_wf)
    moreover from assms(2) v have "read_cell b' (int i) (int j) = Inr (Some (b' ! nat (int i) ! nat (int j)))"
      by (rule read_cell_wf)
    moreover from v have "read_cell b (int i) (int j) = read_cell b' (int i) (int j)"
      by (rule assms(3))
    ultimately show "b ! i ! j = b' ! i ! j" by simp
  qed
qed

lemma lastHumanMoveIndex_snoc:
  assumes "mv_player m = HUMAN"
  shows "lastHumanMoveIndex (h @ [m]) (length (h @ [m])) = int (length h)"
  using assms by simp

lemma human_move_result:
  assumes "wf_game g" and "makeHumanMove_game g row col = (Inr u, g1)"
  shows "\<exists>p b1 b2. humanPos g = Some p \<and> in_bounds p \<and> in_bounds (row, col) \<and>
           read_cell (board g) row col = Inr (Some EMPTY) \<and>
           write_cell (board g) p BLOCKED = Inr b1 \<and>
           write_cell b1 (row, col) (Piece HUMAN) = Inr b2 \<and> wf_board b2 \<and>
           board g1 = b2 \<and> humanPos g1 = Some (row, col) \<and> aiPos g1 = aiPos g \<and>
           currentPlayer g = HUMAN \<and> gamePhase g = playing \<and>
           moveHistory g1 = moveHistory g @
             [\<lparr>mv_player = HUMAN, mv_from = Some p, mv_to = (row, col), mv_board = b2\<rparr>] \<and>
           end_rule g g1"
proof -
  from assms(2) obtain ms g'' where pl: "gamePhase g = playing" and cur: "currentPlayer g = HUMAN"
    and ms: "getValidMoves (board g) (humanPos g) = Inr ms" and mem: "(row, col) \<in> set ms"
    and mv: "movePlayer g HUMAN (Some (row, col)) False = (Inr (), g'')"
    and g1: "g1 = g''\<lparr>currentPlayer := AI\<rparr>"
    using makeHumanMove_Inr by blast
  from assms(1) pl have w: "wf_board (board g)" "pos_ok (humanPos g)" "pos_ok (aiPos g)"
    using wf_game_playing by force+
  from w(1) ms mem have nb: "in_bounds (row, col)"
    and emp: "read_cell (board g) row col = Inr (Some EMPTY)"
    using getValidMoves_in_bounds by force+
  from movePlayer_wf [OF w nb, of HUMAN False] obtain p b1 b2
    where p: "humanPos g = Some p" and pb: "in_bounds p"
      and b1: "write_cell (board g) p BLOCKED = Inr b1"
      and b2: "write_cell b1 (row, col) (Piece HUMAN) = Inr b2" and wf2: "wf_board b2"
      and mp: "movePlayer g HUMAN (Some (row, col)) False = checkGameEnd (moved g HUMAN (row, col) b2)"
    by auto
  from mv mp have ce: "checkGameEnd (moved g HUMAN (row, col) b2) = (Inr (), g'')" by simp
  moreover have "gamePhase (moved g HUMAN (row, col) b2) = playing"
    using pl by (simp add: moved_def)
  ultimately have r: "end_rule (moved g HUMAN (row, col) b2) g''"
    "board g'' = board (moved g HUMAN (row, col) b2)"
    "humanPos g'' = humanPos (moved g HUMAN (row, col) b2)"
    "aiPos g'' = aiPos (moved g HUMAN (row, col) b2)"
    "moveHistory g'' = moveHistory (moved g HUMAN (row, col) b2)"
    using checkGameEnd_end_rule by blast+
  from mv pl have er: "end_rule g g''" by (rule movePlayer_end_rule)
  have "board g1 = b2" "humanPos g1 = Some (row, col)" "aiPos g1 = aiPos g"
    "moveHistory g1 = moveHistory g @
             [\<lparr>mv_player = HUMAN, mv_from = Some p, mv_to = (row, col), mv_board = b2\<rparr>]"
    using r(2-5) p by (simp_all add: g1 moved_def)
  moreover from er have "end_rule g g1" by (simp add: g1 end_rule_currentPlayer)
  ultimately show ?thesis using p pb nb emp b1 b2 wf2 cur pl by blast
qed

lemma undo_after_human_move:
  assumes "wf_game g" and "makeHumanMove_game g row col = (Inr u, g1)"
    and "humanPos g = Some p"
    and "read_cell (board g) (fst p) (snd p) = Inr (Some (Piece HUMAN))"
    and "2 \<le> length (moveHistory g)" and "gamePhase g1 \<noteq> ended"
  shows "\<exists>g2. undoLastMove_game g1 = (Inr (), g2) \<and> board g2 = board g \<and>
           humanPos g2 = humanPos g \<and> aiPos g2 = aiPos g \<and>
           gamePhase g2 = gamePhase g \<and> currentPlayer g2 = currentPlayer g"
proof -
  from human_move_result [OF assms(1,2)] assms(3) obtain b1 b2
    where pb: "in_bounds p" and nb: "in_bounds (row, col)"
      and emp: "read_cell (board g) row col = Inr (Some EMPTY)"
      and b1: "write_cell (board g) p BLOCKED = Inr b1"
      and b2: "write_cell b1 (row, col) (Piece HUMAN) = Inr b2" and wf2: "wf_board b2"
      and bd: "board g1 = b2" and ai: "aiPos g1 = aiPos g"
      and cur: "currentPlayer g = HUMAN" and pl: "gamePhase g = playing"
      and hist: "moveHistory g1 = moveHistory g @
             [\<lparr>mv_player = HUMAN, mv_from = Some p, mv_to = (row, col), mv_board = b2\<rparr>]"
      and er: "end_rule g g1"
    by auto
  let ?m = "\<lparr>mv_player = HUMAN, mv_from = Some p, mv_to = (row, col), mv_board = b2\<rparr>"
  from assms(1) have wf0: "wf_board (board g)" by (simp add: wf_game_def)
  from er assms(6) have pl1: "gamePhase g1 = playing" by (simp add: end_rule_def)
  have idx: "lastHumanMoveIndex (moveHistory g1) (length (moveHistory g1)) = int (length (moveHistory g))"
    unfolding hist by (rule lastHumanMoveIndex_snoc) simp
  have ne: "moveHistory g1 \<noteq> []" by (simp add: hist)
  have last: "lastHumanMove g1 = ?m"
    unfolding lastHumanMove_def idx by (simp add: hist)
  define h' where "h' = take (length (moveHistory g) - 1) (moveHistory g)"
  have tk: "take (nat (int (length (moveHistory g))) - 1) (moveHistory g1) = h'"
    by (simp add: hist h'_def)
  from assms(5) have h'ne: "h' \<noteq> []" by (cases "moveHistory g") (auto simp: h'_def)
  from wf2 nb obtain b3 where b3: "write_cell b2 (row, col) EMPTY = Inr b3"
    using write_cell_ok by blast
  from b3 wf2 have wf3: "wf_board b3" by (rule write_cell_wf)
  from wf3 pb obtain b4 where b4: "write_cell b3 p (Piece HUMAN) = Inr b4"
    using write_cell_ok by blast
  from b4 wf3 have wf4: "wf_board b4" by (rule write_cell_wf)
  have undo: "undoLastMove_game g1 =
      (Inr (), g1\<lparr>moveHistory := h', board := b4, humanPos := Some p, currentPlayer := HUMAN\<rparr>)"
    unfolding undo_unfold [OF assms(6) ne, unfolded idx, OF of_nat_0_le_iff] Let_def tk last
    using h'ne by (simp add: bd b3 b4)
  have "b4 = board g"
  proof (rule board_ext [OF wf4 wf0])
    fix r c assume "isValidPosition r c"
    show "read_cell b4 r c = read_cell (board g) r c"
    proof (cases "(r, c) = p")
      case True
      then have rc: "r = fst p" "c = snd p" by auto
      from b4 wf3 pb have "read_cell b4 (fst p) (snd p) = Inr (Some (Piece HUMAN))"
        by (rule read_write_same)
      with assms(4) rc show ?thesis by simp
    next
      case np: False
      with b4 have 4: "read_cell b4 r c = read_cell b3 r c" by (simp add: read_write_other)
      show ?thesis
      proof (cases "(r, c) = (row, col)")
        case True
        from b3 wf2 nb have "read_cell b3 (fst (row, col)) (snd (row, col)) = Inr (Some EMPTY)"
          by (rule read_write_same)
        with True 4 emp show ?thesis by simp
      next
        case False
        with b3 have "read_cell b3 r c = read_cell b2 r c" by (simp add: read_write_other)
        also from b2 False have "\<dots> = read_cell b1 r c" by (simp add: read_write_other)
        also from b1 np have "\<dots> = read_cell (board g) r c" by (simp add: read_write_other)
        finally show ?thesis using 4 by simp
      qed
    qed
  qed
  with undo assms(3) ai pl pl1 cur show ?thesis by simp
qed

text \<open>
  C3 (amended). On a well-formed session in the Playing phase whose human marker
  stands on the human position and whose move history holds at least two records, a
  human move that does not end the game, followed by undo, gives back the board, both
  positions, the phase and the player to act as they were before the move.
\<close>

theorem move_undo_roundtrip:
  assumes "games gid = Some g" and "wf_game g"
    and "humanPos g = Some p"
    and "read_cell (board g) (fst p) (snd p) = Inr (Some (Piece HUMAN))"
    and "2 \<le> length (moveHistory g)"
    and "makeHumanMove games gid row col = (Inr g1, games1)"
    and "gamePhase g1 \<noteq> ended"
  shows "\<exists>g2 games2. undoLastMove games1 gid = (Inr g2, games2) \<and> board g2 = board g \<and>
           humanPos g2 = humanPos g \<and> aiPos g2 = aiPos g \<and>
           gamePhase g2 = gamePhase g \<and> currentPlayer g2 = currentPlayer g"
proof -
  from assms(1,6) have mv: "makeHumanMove_game g row col = (Inr (), g1)"
    and st: "games1 = games(gid \<mapsto> g1)"
    unfolding makeHumanMove_def using on_session_Inr by blast+
  from undo_after_human_move [OF assms(2) mv assms(3,4,5,7)] obtain g2
    where u: "undoLastMove_game g1 = (Inr (), g2)"
      and eq: "board g2 = board g" "humanPos g2 = humanPos g" "aiPos g2 = aiPos g"
        "gamePhase g2 = gamePhase g" "currentPlayer g2 = currentPlayer g"
    by blast
  from u have "undoLastMove games1 gid = (Inr g2, games1(gid \<mapsto> g2))"
    by (simp add: undoLastMove_def on_session_def st)
  with eq show ?thesis by blast
qed

lemma on_session_single_error:
  assumes "f g = (Inl e, g')"
  shows "on_session [gid \<mapsto> g] gid missing f = (Inl e, [gid \<mapsto> g'])"
  using assms by (simp add: on_session_def)

lemma demo_facts:
  "undoLastMove_game demo2 = (Inr (), newGame)"
  "mv_from (lastHumanMove demo2) = Some (1, 1)"
  "humanPos demo3 = Some (2, 2)"
  "read_cell (board demo3) 2 2 = Inr (Some (Piece HUMAN))"
  "length (moveHistory demo3) = 2"
  "gamePhase demo4 = playing"
  "gamePhase demo1 = playing"
  "gamePhase newGame = starting"
  "read_cell (board demo1) 1 1 = Inr (Some (Piece HUMAN))"
  "read_cell (board newGame) 1 1 = Inr (Some EMPTY)"
  by code_simp+

text \<open>
  C3 as stated fails in two ways. Right after the placement the first human move,
  from (1, 1) to (2, 2), is undone into the blank session: phase Starting and an empty
  board, although the move undone was not the placement. And a move that ends the
  game cannot be undone at all: \<open>undoLastMove\<close> refuses an ended session.
\<close>

theorem move_undo_roundtrip_counterexample:
  "makeHumanMove [''d'' \<mapsto> demo1] ''d'' 2 2 = (Inr demo2, [''d'' \<mapsto> demo2]) \<and>
   mv_from (lastHumanMove demo2) = Some (1, 1) \<and>
   undoLastMove [''d'' \<mapsto> demo2] ''d'' = (Inr newGame, [''d'' \<mapsto> newGame]) \<and>
   gamePhase demo1 = playing \<and> gamePhase newGame = starting \<and>
   read_cell (board demo1) 1 1 = Inr (Some (Piece HUMAN)) \<and>
   read_cell (board newGame) 1 1 = Inr (Some EMPTY) \<and>
   gamePhase trap5 = playing \<and>
   makeHumanMove [''t'' \<mapsto> trap5] ''t'' 0 0 = (Inr trap6, [''t'' \<mapsto> trap6]) \<and>
   undoLastMove [''t'' \<mapsto> trap6] ''t'' = (Inl CannotUndoEnded, [''t'' \<mapsto> trap6])"
proof -
  have 1: "makeHumanMove [''d'' \<mapsto> demo1] ''d'' 2 2 = (Inr demo2, [''d'' \<mapsto> demo2])"
    unfolding makeHumanMove_def using demo_run(2) by (rule on_session_single)
  have 2: "undoLastMove [''d'' \<mapsto> demo2] ''d'' = (Inr newGame, [''d'' \<mapsto> newGame])"
    unfolding undoLastMove_def using demo_facts(1) by (rule on_session_single)
  have 3: "makeHumanMove [''t'' \<mapsto> trap5] ''t'' 0 0 = (Inr trap6, [''t'' \<mapsto> trap6])"
    unfolding makeHumanMove_def using trap_run(6) by (rule on_session_single)
  have 4: "undoLastMove [''t'' \<mapsto> trap6] ''t'' = (Inl CannotUndoEnded, [''t'' \<mapsto> trap6])"
    unfolding undoLastMove_def using trap_facts(6) by (rule on_session_single_error)
  from 1 2 3 4 demo_facts(2,7,8,9,10) trap_facts(1) show ?thesis by blast
qed

text \<open>The human move from (2, 2) to (3, 2) on \<open>demo3\<close>, then undo.\<close>

theorem move_undo_roundtrip_witness:
  "[''d'' \<mapsto> demo3] ''d'' = Some demo3 \<and> wf_game demo3 \<and> humanPos demo3 = Some (2, 2) \<and>
   read_cell (board demo3) 2 2 = Inr (Some (Piece HUMAN)) \<and>
   2 \<le> length (moveHistory demo3) \<and>
   makeHumanMove [''d'' \<mapsto> demo3] ''d'' 3 2 = (Inr demo4, [''d'' \<mapsto> demo4]) \<and>
   gamePhase demo4 \<noteq> ended \<and>
   (\<exists>g2 games2. undoLastMove [''d'' \<mapsto> demo4] ''d'' = (Inr g2, games2) \<and>
      board g2 = board demo3 \<and> humanPos g2 = humanPos demo3 \<and> aiPos g2 = aiPos demo3 \<and>
      gamePhase g2 = gamePhase demo3 \<and> currentPlayer g2 = currentPlayer demo3)"
proof -
  have h1: "[''d'' \<mapsto> demo3] ''d'' = Some demo3" by simp
  have h4: "read_cell (board demo3) (fst (2, 2)) (snd (2, 2)) = Inr (Some (Piece HUMAN))"
    using demo_facts(4) by simp
  have h5: "2 \<le> length (moveHistory demo3)" using demo_facts(5) by simp
  have h6: "makeHumanMove [''d'' \<mapsto> demo3] ''d'' 3 2 = (Inr demo4, [''d'' \<mapsto> demo4])"
    unfolding makeHumanMove_def using demo_run(4) by (rule on_session_single)
  have h7: "gamePhase demo4 \<noteq> ended" using demo_facts(6) by simp
  from move_undo_roundtrip [OF h1 demo_wf(1) demo_facts(3) h4 h5 h6 h7]
  have "\<exists>g2 games2. undoLastMove [''d'' \<mapsto> demo4] ''d'' = (Inr g2, games2) \<and>
      board g2 = board demo3 \<and> humanPos g2 = humanPos demo3 \<and> aiPos g2 = aiPos demo3 \<and>
      gamePhase g2 = gamePhase demo3 \<and> currentPlayer g2 = currentPlayer demo3" .
  with h1 demo_wf(1) demo_facts(3,4) h5 h6 h7 show ?thesis by blast
qed

text \<open>
  C5. The human move to the interior cell (2, 2), with the software agent on (3, 3)
  at Manhattan distance 2, is recorded in the trap-attempt table: \<open>isTrapAttempt\<close>
  computes whether the destination is an edge cell and never uses it.
\<close>

theorem interior_move_recorded_as_trap:
  "makeHumanMove [''d'' \<mapsto> demo1] ''d'' 2 2 = (Inr demo2, [''d'' \<mapsto> demo2]) \<and>
   \<not> isEdge (2, 2) \<and>
   isTrapAttempt (2, 2) (board demo2) = Inr True \<and>
   trapAttempts newRecorder (2, 2) = None \<and>
   fst (recordMove newRecorder ''d'' HUMAN (2, 2) (board demo2)) = Inr () \<and>
   trapAttempts (snd (recordMove newRecorder ''d'' HUMAN (2, 2) (board demo2))) (2, 2) = Some 1"
proof -
  have 1: "makeHumanMove [''d'' \<mapsto> demo1] ''d'' 2 2 = (Inr demo2, [''d'' \<mapsto> demo2])"
    unfolding makeHumanMove_def using demo_run(2) by (rule on_session_single)
  have 2: "\<not> isEdge (2, 2)" "isTrapAttempt (2, 2) (board demo2) = Inr True"
    "trapAttempts newRecorder (2, 2) = None"
    "fst (recordMove newRecorder ''d'' HUMAN (2, 2) (board demo2)) = Inr ()"
    "trapAttempts (snd (recordMove newRecorder ''d'' HUMAN (2, 2) (board demo2))) (2, 2) = Some 1"
    by code_simp+
  from 1 2 show ?thesis by blast
qed

subsection \<open>The selection loop\<close>

lemma mcts_round_Cons:
  "mcts_round clock nn st limit g (move # rest) s =
     (case simulate nn g move (simulations s) of
        Inl e \<Rightarrow> (Inl e, s)
      | Inr v \<Rightarrow>
          if clock (ticks s) - st \<ge> limit then (Inr (), credit s move v)
          else mcts_round clock nn st limit g rest (credit s move v))"
  by (simp add: credit_def Let_def split: sum.splits)

lemma credit_fields:
  "simulations (credit s move v) = simulations s + 1"
  "ticks (credit s move v) = ticks s + 1"
  "scores (credit s move v) = (scores s)(move := add64 (scores s move) v)"
  "visits (credit s move v) = (visits s)(move := visits s move + 1)"
  "evaluated (credit s move v) = (ticks s - 1, move, v) # evaluated s"
  by (simp_all add: credit_def)

text \<open>An invariant that may depend on the candidates still to come in the round.\<close>

lemma mcts_round_inv:
  assumes "P ms s"
    and step: "\<And>move rest s v. P (move # rest) s \<Longrightarrow>
                 simulate nn g move (simulations s) = Inr v \<Longrightarrow> P rest (credit s move v)"
    and "mcts_round clock nn st limit g ms s = (r, s')"
  shows "\<exists>rest. P rest s'"
  using assms(1,3)
proof (induction ms arbitrary: s)
  case Nil
  then show ?case by auto
next
  case (Cons move rest)
  show ?case
  proof (cases "simulate nn g move (simulations s)")
    case (Inl e)
    with Cons.prems(2) have "s' = s" by (simp add: mcts_round_Cons del: mcts_round.simps)
    with Cons.prems(1) show ?thesis by blast
  next
    case (Inr v)
    with Cons.prems(1) have P: "P rest (credit s move v)" by (simp add: step)
    show ?thesis
    proof (cases "clock (ticks s) - st \<ge> limit")
      case True
      with Inr Cons.prems(2) have "s' = credit s move v" by (simp add: mcts_round_Cons del: mcts_round.simps)
      with P show ?thesis by blast
    next
      case False
      with Inr Cons.prems(2) have "mcts_round clock nn st limit g rest (credit s move v) = (r, s')"
        by (simp add: mcts_round_Cons del: mcts_round.simps)
      with P show ?thesis by (rule Cons.IH)
    qed
  qed
qed

lemma mcts_round_simulations:
  assumes "mcts_round clock nn st limit g ms s = (r, s')"
  shows "simulations s \<le> simulations s' \<and> simulations s' \<le> simulations s + length ms \<and>
         (r = Inr () \<and> ms \<noteq> [] \<longrightarrow> simulations s < simulations s')"
  using assms
proof (induction ms arbitrary: s)
  case Nil
  then show ?case by simp
next
  case (Cons move rest)
  show ?case
  proof (cases "simulate nn g move (simulations s)")
    case (Inl e)
    with Cons.prems show ?thesis by (auto simp: mcts_round_Cons simp del: mcts_round.simps)
  next
    case (Inr v)
    show ?thesis
    proof (cases "clock (ticks s) - st \<ge> limit")
      case True
      with Inr Cons.prems have "s' = credit s move v" by (simp add: mcts_round_Cons del: mcts_round.simps)
      then show ?thesis by (simp add: credit_fields)
    next
      case False
      with Inr Cons.prems have "mcts_round clock nn st limit g rest (credit s move v) = (r, s')"
        by (simp add: mcts_round_Cons del: mcts_round.simps)
      from Cons.IH [OF this] show ?thesis by (simp add: credit_fields)
    qed
  qed
qed

text \<open>
  The \<^verbatim>\<open>while\<close> loop returns whenever there is a candidate, and keeps every
  property that a round started before the deadline and below the cap keeps.
\<close>

lemma mcts_while_exit:
  assumes ne: "ms \<noteq> []"
    and tick: "\<And>s. Q s \<Longrightarrow> \<not> (clock (ticks s) - st < limit \<and> int (simulations s) < cap) \<Longrightarrow>
                 Q (s\<lparr>ticks := ticks s + 1\<rparr>)"
    and round: "\<And>s r s'. Q s \<Longrightarrow> clock (ticks s) - st < limit \<Longrightarrow> int (simulations s) < cap \<Longrightarrow>
                  mcts_round clock nn st limit g ms (s\<lparr>ticks := ticks s + 1\<rparr>) = (r, s') \<Longrightarrow> Q s'"
  shows "Q s \<Longrightarrow> \<exists>r s'. mcts_while clock nn st limit cap g ms s = Some (r, s') \<and> Q s' \<and>
           (r = Inr () \<or> (\<exists>s1 e. mcts_round clock nn st limit g ms s1 = (Inl e, s')))"
proof (induction "nat (cap - int (simulations s))" arbitrary: s rule: less_induct)
  case less
  let ?s1 = "s\<lparr>ticks := ticks s + 1\<rparr>"
  show ?case
  proof (cases "clock (ticks s) - st < limit \<and> int (simulations s) < cap")
    case False
    then have "mcts_while clock nn st limit cap g ms s = Some (Inr (), ?s1)"
      by (subst mcts_while.simps) (auto simp: Let_def)
    moreover have "Q ?s1" using less.prems False by (rule tick)
    ultimately show ?thesis by blast
  next
    case True
    obtain r2 s2 where rd: "mcts_round clock nn st limit g ms ?s1 = (r2, s2)"
      by (cases "mcts_round clock nn st limit g ms ?s1")
    from less.prems True rd have Q2: "Q s2" by (simp add: round)
    show ?thesis
    proof (cases r2)
      case (Inl e)
      with True rd have "mcts_while clock nn st limit cap g ms s = Some (Inl e, s2)"
        by (subst mcts_while.simps) (simp add: Let_def)
      with Q2 rd Inl show ?thesis by blast
    next
      case (Inr u)
      with rd ne have inc: "simulations ?s1 < simulations s2"
        using mcts_round_simulations by fastforce
      show ?thesis
      proof (cases "int (simulations s2) \<ge> cap")
        case True
        with \<open>clock (ticks s) - st < limit \<and> int (simulations s) < cap\<close> rd Inr
        have "mcts_while clock nn st limit cap g ms s = Some (Inr (), s2)"
          by (subst mcts_while.simps) (simp add: Let_def)
        with Q2 show ?thesis by blast
      next
        case False
        with \<open>clock (ticks s) - st < limit \<and> int (simulations s) < cap\<close> rd Inr
        have eq: "mcts_while clock nn st limit cap g ms s = mcts_while clock nn st limit cap g ms s2"
          by (subst mcts_while.simps) (simp add: Let_def)
        from inc False have "nat (cap - int (simulations s2)) < nat (cap - int (simulations s))"
          by simp
        from less.hyps [OF this Q2] eq show ?thesis by simp
      qed
    qed
  qed
qed

lemma init_state_fields:
  "scores (init_state ms) = (\<lambda>_. 0) \<and> visits (init_state ms) = (\<lambda>_. 0) \<and>
   simulations (init_state ms) = 0 \<and> ticks (init_state ms) = 1 \<and> evaluated (init_state ms) = []"
proof -
  define f :: "pos \<Rightarrow> mcts_state \<Rightarrow> mcts_state"
    where "f = (\<lambda>move s. s\<lparr>scores := (scores s)(move := 0), visits := (visits s)(move := 0)\<rparr>)"
  have step: "scores (f m s) = (\<lambda>_. 0) \<and> visits (f m s) = (\<lambda>_. 0) \<and>
      simulations (f m s) = simulations s \<and> ticks (f m s) = ticks s \<and> evaluated (f m s) = evaluated s"
    if "scores s = (\<lambda>_. 0)" "visits s = (\<lambda>_. 0)" for m s
    using that by (simp add: f_def fun_eq_iff)
  have "scores (fold f ms s) = (\<lambda>_. 0) \<and> visits (fold f ms s) = (\<lambda>_. 0) \<and>
        simulations (fold f ms s) = simulations s \<and> ticks (fold f ms s) = ticks s \<and>
        evaluated (fold f ms s) = evaluated s"
    if "scores s = (\<lambda>_. 0)" "visits s = (\<lambda>_. 0)" for s
    using that
  proof (induction ms arbitrary: s)
    case Nil
    then show ?case by simp
  next
    case (Cons m ms)
    from step [OF Cons.prems] Cons.IH [of "f m s"] show ?case by simp
  qed
  from this [of "\<lparr>scores = (\<lambda>_. 0), visits = (\<lambda>_. 0), simulations = 0, ticks = 1, evaluated = []\<rparr>"]
  show ?thesis unfolding init_state_def f_def by simp
qed

lemma enhancedMCTS_exit:
  assumes ne: "ms \<noteq> []"
    and init: "Q (init_state ms)"
    and tick: "\<And>s. Q s \<Longrightarrow>
                 \<not> (clock (ticks s) - clock 0 < timeLimit cfg \<and> int (simulations s) < maxSimulations cfg) \<Longrightarrow>
                 Q (s\<lparr>ticks := ticks s + 1\<rparr>)"
    and round: "\<And>s r s'. Q s \<Longrightarrow> clock (ticks s) - clock 0 < timeLimit cfg \<Longrightarrow>
                  int (simulations s) < maxSimulations cfg \<Longrightarrow>
                  mcts_round clock nn (clock 0) (timeLimit cfg) g ms (s\<lparr>ticks := ticks s + 1\<rparr>) = (r, s') \<Longrightarrow> Q s'"
  shows "\<exists>r s. enhancedMCTS cfg clock nn g ms = Some (r, s) \<and> Q s \<and>
           (r = Inr (fst (select_best s ms (first_move ms, 0))) \<or>
            (\<exists>s1 e. mcts_round clock nn (clock 0) (timeLimit cfg) g ms s1 = (Inl e, s)))"
proof -
  have "\<exists>r s'. mcts_while clock nn (clock 0) (timeLimit cfg) (maxSimulations cfg) g ms (init_state ms) = Some (r, s') \<and> Q s' \<and>
           (r = Inr () \<or> (\<exists>s1 e. mcts_round clock nn (clock 0) (timeLimit cfg) g ms s1 = (Inl e, s')))"
  proof (rule mcts_while_exit [where Q = Q])
    show "ms \<noteq> []" by fact
    show "Q (s\<lparr>ticks := ticks s + 1\<rparr>)" if "Q s"
      "\<not> (clock (ticks s) - clock 0 < timeLimit cfg \<and> int (simulations s) < maxSimulations cfg)" for s
      using that by (rule tick)
    show "Q s'" if "Q s" "clock (ticks s) - clock 0 < timeLimit cfg"
      "int (simulations s) < maxSimulations cfg"
      "mcts_round clock nn (clock 0) (timeLimit cfg) g ms (s\<lparr>ticks := ticks s + 1\<rparr>) = (r, s')"
      for s r s' using that by (rule round)
    show "Q (init_state ms)" by fact
  qed
  then obtain r s where w: "mcts_while clock nn (clock 0) (timeLimit cfg) (maxSimulations cfg) g ms (init_state ms) = Some (r, s)"
    and Q: "Q s"
    and r: "r = Inr () \<or> (\<exists>s1 e. mcts_round clock nn (clock 0) (timeLimit cfg) g ms s1 = (Inl e, s))"
    by blast
  show ?thesis
  proof (cases r)
    case (Inl e)
    with w have "enhancedMCTS cfg clock nn g ms = Some (Inl e, s)"
      by (simp add: enhancedMCTS_def)
    with Q r Inl show ?thesis by auto
  next
    case (Inr u)
    with w have "enhancedMCTS cfg clock nn g ms = Some (Inr (fst (select_best s ms (first_move ms, 0))), s)"
      by (simp add: enhancedMCTS_def)
    with Q show ?thesis by blast
  qed
qed

subsection \<open>The budget of one selection\<close>

lemma early_readings_Suc:
  assumes "1 \<le> n"
  shows "early_readings clock limit (Suc n) =
         early_readings clock limit n + (if clock n - clock 0 < limit then 1 else 0)"
proof -
  from assms have "[1..<Suc n] = [1..<n] @ [n]" by simp
  then show ?thesis by (simp add: early_readings_def)
qed

lemma mcts_round_early:
  assumes "mcts_round clock nn (clock 0) limit g ms s = (r, s')"
    and "simulations s + 1 \<le> early_readings clock limit (ticks s)" and "1 \<le> ticks s"
  shows "simulations s' \<le> early_readings clock limit (ticks s') \<and> 1 \<le> ticks s'"
  using assms
proof (induction ms arbitrary: s)
  case Nil
  then show ?case by simp
next
  case (Cons move rest)
  show ?case
  proof (cases "simulate nn g move (simulations s)")
    case (Inl e)
    with Cons.prems show ?thesis by (auto simp: mcts_round_Cons simp del: mcts_round.simps)
  next
    case (Inr v)
    have er: "early_readings clock limit (ticks s + 1) =
         early_readings clock limit (ticks s) + (if clock (ticks s) - clock 0 < limit then 1 else 0)"
      using Cons.prems(3) by (simp add: early_readings_Suc)
    show ?thesis
    proof (cases "clock (ticks s) - clock 0 \<ge> limit")
      case True
      with Inr Cons.prems(1) have "s' = credit s move v"
        by (simp add: mcts_round_Cons del: mcts_round.simps)
      with True er Cons.prems(2,3) show ?thesis by (simp add: credit_fields)
    next
      case False
      with Inr Cons.prems(1) have rd: "mcts_round clock nn (clock 0) limit g rest (credit s move v) = (r, s')"
        by (simp add: mcts_round_Cons del: mcts_round.simps)
      from False er Cons.prems(2) have "simulations (credit s move v) + 1
          \<le> early_readings clock limit (ticks (credit s move v))"
        by (simp add: credit_fields)
      moreover from Cons.prems(3) have "1 \<le> ticks (credit s move v)" by (simp add: credit_fields)
      ultimately show ?thesis using rd Cons.IH by blast
    qed
  qed
qed

lemma enhancedMCTS_within_budget:
  assumes "ms \<noteq> []"
  shows "\<exists>r s. enhancedMCTS cfg clock nn g ms = Some (r, s) \<and> within_budget cfg clock (length ms) s"
proof -
  define Q where "Q s \<longleftrightarrow> within_budget cfg clock (length ms) s \<and> 1 \<le> ticks s" for s
  have "\<exists>r s. enhancedMCTS cfg clock nn g ms = Some (r, s) \<and> Q s \<and>
           (r = Inr (fst (select_best s ms (first_move ms, 0))) \<or>
            (\<exists>s1 e. mcts_round clock nn (clock 0) (timeLimit cfg) g ms s1 = (Inl e, s)))"
  proof (rule enhancedMCTS_exit [where Q = Q])
    show "ms \<noteq> []" by fact
    show "Q (init_state ms)"
      using init_state_fields [of ms] by (simp add: Q_def within_budget_def)
  next
    fix s assume Q: "Q s"
    then have "1 \<le> ticks s" by (simp add: Q_def)
    then have "early_readings clock (timeLimit cfg) (ticks s) \<le> early_readings clock (timeLimit cfg) (ticks s + 1)"
      by (simp add: early_readings_Suc)
    with Q show "Q (s\<lparr>ticks := ticks s + 1\<rparr>)"
      by (simp add: Q_def within_budget_def)
  next
    fix s r s'
    assume Q: "Q s" and early: "clock (ticks s) - clock 0 < timeLimit cfg"
      and cap: "int (simulations s) < maxSimulations cfg"
      and rd: "mcts_round clock nn (clock 0) (timeLimit cfg) g ms (s\<lparr>ticks := ticks s + 1\<rparr>) = (r, s')"
    let ?s1 = "s\<lparr>ticks := ticks s + 1\<rparr>"
    from Q have t: "1 \<le> ticks s" and e: "simulations s \<le> early_readings clock (timeLimit cfg) (ticks s)"
      by (simp_all add: Q_def within_budget_def)
    from t early e have "simulations ?s1 + 1 \<le> early_readings clock (timeLimit cfg) (ticks ?s1)"
      by (simp add: early_readings_Suc)
    moreover from t have "1 \<le> ticks ?s1" by simp
    ultimately have a: "simulations s' \<le> early_readings clock (timeLimit cfg) (ticks s') \<and> 1 \<le> ticks s'"
      using rd mcts_round_early by blast
    from rd have "simulations s' \<le> simulations ?s1 + length ms"
      using mcts_round_simulations by blast
    with cap have "int (simulations s') < maxSimulations cfg + int (length ms)" by simp
    with a show "Q s'" by (simp add: Q_def within_budget_def)
  qed
  then show ?thesis by (auto simp: Q_def)
qed

text \<open>The recorded evaluations of a round started after an early reading.\<close>

lemma log_ok_credit:
  assumes "log_ok clock limit ms0 s" and "2 \<le> ticks s"
    and "clock (ticks s - 1) - clock 0 < limit" and "move \<in> set ms0"
  shows "log_ok clock limit ms0 (credit s move v)"
proof -
  from assms(1) have len: "length (evaluated s) = simulations s"
    and dis: "distinct (map fst (evaluated s))"
    and old: "\<forall>e \<in> set (evaluated s). 0 < fst e \<and> fst e + 1 < ticks s \<and>
                clock (fst e) - clock 0 < limit \<and> fst (snd e) \<in> set ms0"
    by (auto simp: log_ok_def)
  from old have "ticks s - 1 \<notin> fst ` set (evaluated s)" by auto
  with dis have d: "distinct (map fst (evaluated (credit s move v)))"
    by (simp add: credit_fields)
  from old assms(2-4) have "\<forall>e \<in> set (evaluated (credit s move v)).
      0 < fst e \<and> fst e + 1 < ticks (credit s move v) \<and>
      clock (fst e) - clock 0 < limit \<and> fst (snd e) \<in> set ms0"
    by (auto simp: credit_fields)
  with len d show ?thesis by (auto simp: log_ok_def credit_fields)
qed

lemma mcts_round_log:
  assumes "mcts_round clock nn (clock 0) limit g ms s = (r, s')"
    and "log_ok clock limit ms0 s" and "2 \<le> ticks s"
    and "clock (ticks s - 1) - clock 0 < limit" and "set ms \<subseteq> set ms0"
  shows "log_ok clock limit ms0 s' \<and> 2 \<le> ticks s'"
  using assms
proof (induction ms arbitrary: s)
  case Nil
  then show ?case by simp
next
  case (Cons move rest)
  show ?case
  proof (cases "simulate nn g move (simulations s)")
    case (Inl e)
    with Cons.prems show ?thesis by (auto simp: mcts_round_Cons simp del: mcts_round.simps)
  next
    case (Inr v)
    from Cons.prems(5) have mem: "move \<in> set ms0" by simp
    from Cons.prems(2,3,4) mem have ok: "log_ok clock limit ms0 (credit s move v)"
      by (rule log_ok_credit)
    from Cons.prems(3) have t: "2 \<le> ticks (credit s move v)" by (simp add: credit_fields)
    show ?thesis
    proof (cases "clock (ticks s) - clock 0 \<ge> limit")
      case True
      with Inr Cons.prems(1) have "s' = credit s move v"
        by (simp add: mcts_round_Cons del: mcts_round.simps)
      with ok t show ?thesis by simp
    next
      case False
      with Inr Cons.prems(1) have rd: "mcts_round clock nn (clock 0) limit g rest (credit s move v) = (r, s')"
        by (simp add: mcts_round_Cons del: mcts_round.simps)
      from False have "clock (ticks (credit s move v) - 1) - clock 0 < limit"
        by (simp add: credit_fields)
      moreover from Cons.prems(5) have "set rest \<subseteq> set ms0" by simp
      ultimately show ?thesis using rd ok t Cons.IH by blast
    qed
  qed
qed

lemma enhancedMCTS_log:
  assumes "ms \<noteq> []"
  shows "\<exists>r s. enhancedMCTS cfg clock nn g ms = Some (r, s) \<and> log_ok clock (timeLimit cfg) ms s"
proof -
  define Q where "Q s \<longleftrightarrow> log_ok clock (timeLimit cfg) ms s \<and> 1 \<le> ticks s" for s
  have "\<exists>r s. enhancedMCTS cfg clock nn g ms = Some (r, s) \<and> Q s \<and>
           (r = Inr (fst (select_best s ms (first_move ms, 0))) \<or>
            (\<exists>s1 e. mcts_round clock nn (clock 0) (timeLimit cfg) g ms s1 = (Inl e, s)))"
  proof (rule enhancedMCTS_exit [where Q = Q])
    show "ms \<noteq> []" by fact
    show "Q (init_state ms)"
      using init_state_fields [of ms] by (simp add: Q_def log_ok_def)
  next
    fix s assume "Q s"
    then show "Q (s\<lparr>ticks := ticks s + 1\<rparr>)"
      by (auto simp: Q_def log_ok_def)
  next
    fix s r s'
    assume Q: "Q s" and early: "clock (ticks s) - clock 0 < timeLimit cfg"
      and rd: "mcts_round clock nn (clock 0) (timeLimit cfg) g ms (s\<lparr>ticks := ticks s + 1\<rparr>) = (r, s')"
    let ?s1 = "s\<lparr>ticks := ticks s + 1\<rparr>"
    from Q have "log_ok clock (timeLimit cfg) ms ?s1" by (auto simp: Q_def log_ok_def)
    moreover from Q have "2 \<le> ticks ?s1" by (simp add: Q_def)
    moreover from early have "clock (ticks ?s1 - 1) - clock 0 < timeLimit cfg" by simp
    ultimately have "log_ok clock (timeLimit cfg) ms s' \<and> 2 \<le> ticks s'"
      using rd mcts_round_log [of clock nn "timeLimit cfg" g ms ?s1 r s' ms] by blast
    then show "Q s'" by (simp add: Q_def)
  qed
  then show ?thesis by (auto simp: Q_def)
qed

text \<open>
  C4 (amended). A selection over a non-empty candidate list always returns. Every
  evaluation comes after a clock reading of its own, later than the start and before
  the deadline; so with a clock that never steps back no candidate is evaluated once
  the clock has been read at or past the deadline. The count cap is tested between
  rounds only: the number of evaluations stays below the cap plus the number of
  candidates.
\<close>

theorem enhancedMCTS_budget:
  assumes "validMoves \<noteq> []"
  shows "\<exists>r s. enhancedMCTS cfg clock nn g validMoves = Some (r, s) \<and>
           (simulations s = 0 \<or> int (simulations s) < maxSimulations cfg + int (length validMoves)) \<and>
           length (evaluated s) = simulations s \<and>
           distinct (map fst (evaluated s)) \<and>
           (\<forall>(t, move, v) \<in> set (evaluated s).
              0 < t \<and> t < ticks s \<and> clock t - clock 0 < timeLimit cfg) \<and>
           (mono clock \<longrightarrow>
              (\<forall>(t, move, v) \<in> set (evaluated s). \<forall>j \<le> t. clock j - clock 0 < timeLimit cfg))"
proof -
  from enhancedMCTS_within_budget [OF assms, of cfg clock nn g] obtain r s
    where res: "enhancedMCTS cfg clock nn g validMoves = Some (r, s)"
      and wb: "within_budget cfg clock (length validMoves) s"
    by blast
  from enhancedMCTS_log [OF assms, of cfg clock nn g] res
  have lg: "log_ok clock (timeLimit cfg) validMoves s" by auto
  from wb have 1: "simulations s = 0 \<or> int (simulations s) < maxSimulations cfg + int (length validMoves)"
    by (simp add: within_budget_def)
  from lg have 2: "length (evaluated s) = simulations s" and 3: "distinct (map fst (evaluated s))"
    and 4: "\<forall>(t, move, v) \<in> set (evaluated s). 0 < t \<and> t < ticks s \<and> clock t - clock 0 < timeLimit cfg"
    by (auto simp: log_ok_def)
  have 5: "\<forall>(t, move, v) \<in> set (evaluated s). \<forall>j \<le> t. clock j - clock 0 < timeLimit cfg"
    if "mono clock"
  proof (intro ballI, clarify)
    fix t move v j
    assume "(t, move, v) \<in> set (evaluated s)" and "j \<le> t"
    with 4 have "clock t - clock 0 < timeLimit cfg" by auto
    moreover from that \<open>j \<le> t\<close> have "clock j \<le> clock t" by (rule monoD)
    ultimately show "clock j - clock 0 < timeLimit cfg" by simp
  qed
  from 5 have 6: "mono clock \<longrightarrow>
      (\<forall>(t, move, v) \<in> set (evaluated s). \<forall>j \<le> t. clock j - clock 0 < timeLimit cfg)"
    by blast
  show ?thesis
  proof (intro exI conjI)
    show "enhancedMCTS cfg clock nn g validMoves = Some (r, s)" by fact
    show "simulations s = 0 \<or> int (simulations s) < maxSimulations cfg + int (length validMoves)" by fact
    show "length (evaluated s) = simulations s" by fact
    show "distinct (map fst (evaluated s))" by fact
    show "\<forall>(t, move, v) \<in> set (evaluated s). 0 < t \<and> t < ticks s \<and> clock t - clock 0 < timeLimit cfg"
      by fact
    show "mono clock \<longrightarrow>
      (\<forall>(t, move, v) \<in> set (evaluated s). \<forall>j \<le> t. clock j - clock 0 < timeLimit cfg)" by fact
  qed
qed

lemma budget_run:
  "outcome [(2, 3), (4, 3), (3, 2), (3, 4), (2, 4), (4, 2), (4, 4)]
     (enhancedMCTS default_cfg still_clock level_net demo2 [(2, 3), (4, 3), (3, 2), (3, 4), (2, 4), (4, 2), (4, 4)])
   = Some (Inr (Some (2, 3)), [29, 29, 29, 29, 29, 29, 29], 203)"
  "getValidMoves (board demo2) (aiPos demo2) = Inr [(2, 3), (4, 3), (3, 2), (3, 4), (2, 4), (4, 2), (4, 4)]"
  "maxSimulations default_cfg = 200"
  by code_simp+

text \<open>
  C4 as stated fails: with the default limits, seven candidates and a clock that stays
  inside the deadline, the 29th round starts at 196 evaluations and runs to its end:
  203 evaluations against a cap of 200.
\<close>

theorem enhancedMCTS_budget_counterexample:
  "getValidMoves (board demo2) (aiPos demo2) = Inr [(2, 3), (4, 3), (3, 2), (3, 4), (2, 4), (4, 2), (4, 4)] \<and>
   maxSimulations default_cfg = 200 \<and>
   outcome [(2, 3), (4, 3), (3, 2), (3, 4), (2, 4), (4, 2), (4, 4)]
     (enhancedMCTS default_cfg still_clock level_net demo2 [(2, 3), (4, 3), (3, 2), (3, 4), (2, 4), (4, 2), (4, 4)])
   = Some (Inr (Some (2, 3)), [29, 29, 29, 29, 29, 29, 29], 203)"
  using budget_run by blast

text \<open>The same selection: 203 evaluations, each after an early reading of its own.\<close>

theorem enhancedMCTS_budget_witness:
  "[(2, 3), (4, 3), (3, 2), (3, 4), (2, 4), (4, 2), (4, 4)] \<noteq> ([] :: pos list) \<and>
   mono still_clock \<and>
   (\<exists>r s. enhancedMCTS default_cfg still_clock level_net demo2 [(2, 3), (4, 3), (3, 2), (3, 4), (2, 4), (4, 2), (4, 4)] = Some (r, s) \<and>
      simulations s = 203 \<and> length (evaluated s) = 203 \<and> distinct (map fst (evaluated s)) \<and>
      (\<forall>(t, move, v) \<in> set (evaluated s).
         \<forall>j \<le> t. still_clock j - still_clock 0 < timeLimit default_cfg))"
proof -
  let ?ms = "[(2, 3), (4, 3), (3, 2), (3, 4), (2, 4), (4, 2), (4, 4)] :: pos list"
  have ne: "?ms \<noteq> []" by simp
  have mn: "mono still_clock" by (simp add: mono_def still_clock_def)
  from enhancedMCTS_budget [OF ne, of default_cfg still_clock level_net demo2] obtain r s
    where res: "enhancedMCTS default_cfg still_clock level_net demo2 ?ms = Some (r, s)"
      and len: "length (evaluated s) = simulations s"
      and dis: "distinct (map fst (evaluated s))"
      and early: "mono still_clock \<longrightarrow> (\<forall>(t, move, v) \<in> set (evaluated s).
         \<forall>j \<le> t. still_clock j - still_clock 0 < timeLimit default_cfg)"
    by blast
  from budget_run(1) res have n: "simulations s = 203" by (simp add: outcome_def)
  from early mn have "\<forall>(t, move, v) \<in> set (evaluated s).
         \<forall>j \<le> t. still_clock j - still_clock 0 < timeLimit default_cfg"
    by blast
  with ne mn res n len dis show ?thesis by auto
qed

subsection \<open>The choice among the candidates\<close>

lemma select_best_first_max:
  assumes "select_best s ms (bm, bs) = (rm, rs)"
  shows "if \<exists>m \<in> set ms. winRate s m > bs
         then \<exists>i. first_best s ms i \<and> rm = Some (ms ! i) \<and> rs = winRate s (ms ! i) \<and> bs < rs
         else rm = bm \<and> rs = bs"
  using assms
proof (induction ms arbitrary: bm bs)
  case Nil
  then show ?case by simp
next
  case (Cons m ms)
  show ?case
  proof (cases "winRate s m > bs")
    case True
    with Cons.prems have rec: "select_best s ms (Some m, winRate s m) = (rm, rs)" by simp
    show ?thesis
    proof (cases "\<exists>m' \<in> set ms. winRate s m' > winRate s m")
      case ex: True
      with Cons.IH [OF rec] obtain i where i: "first_best s ms i" "rm = Some (ms ! i)"
        "rs = winRate s (ms ! i)" "winRate s m < rs" by auto
      have "first_best s (m # ms) (Suc i)"
        unfolding first_best_def
      proof (intro conjI allI impI)
        from i(1) show "Suc i < length (m # ms)" by (simp add: first_best_def)
      next
        fix j assume "j < length (m # ms)"
        with i show "winRate s ((m # ms) ! j) \<le> winRate s ((m # ms) ! Suc i)"
          by (cases j) (auto simp: first_best_def)
      next
        fix j assume "j < Suc i"
        with i show "winRate s ((m # ms) ! j) < winRate s ((m # ms) ! Suc i)"
          by (cases j) (auto simp: first_best_def)
      qed
      moreover from True i have "bs < rs" by simp
      ultimately show ?thesis using True i(2,3) by auto
    next
      case nex: False
      with Cons.IH [OF rec] have r: "rm = Some m" "rs = winRate s m" by auto
      have "first_best s (m # ms) 0"
        unfolding first_best_def
      proof (intro conjI allI impI)
        show "0 < length (m # ms)" by simp
      next
        fix j assume j: "j < length (m # ms)"
        show "winRate s ((m # ms) ! j) \<le> winRate s ((m # ms) ! 0)"
        proof (cases j)
          case 0
          then show ?thesis by simp
        next
          case (Suc k)
          with j have "ms ! k \<in> set ms" by simp
          with nex have "\<not> winRate s (ms ! k) > winRate s m" by blast
          with Suc show ?thesis by simp
        qed
      next
        fix j :: nat assume "j < 0"
        then show "winRate s ((m # ms) ! j) < winRate s ((m # ms) ! 0)" by simp
      qed
      with True r show ?thesis by auto
    qed
  next
    case False
    with Cons.prems have rec: "select_best s ms (bm, bs) = (rm, rs)" by simp
    show ?thesis
    proof (cases "\<exists>m' \<in> set ms. winRate s m' > bs")
      case ex: True
      with Cons.IH [OF rec] obtain i where i: "first_best s ms i" "rm = Some (ms ! i)"
        "rs = winRate s (ms ! i)" "bs < rs" by auto
      have "first_best s (m # ms) (Suc i)"
        unfolding first_best_def
      proof (intro conjI allI impI)
        from i(1) show "Suc i < length (m # ms)" by (simp add: first_best_def)
      next
        fix j assume "j < length (m # ms)"
        with i False show "winRate s ((m # ms) ! j) \<le> winRate s ((m # ms) ! Suc i)"
          by (cases j) (auto simp: first_best_def)
      next
        fix j assume "j < Suc i"
        with i False show "winRate s ((m # ms) ! j) < winRate s ((m # ms) ! Suc i)"
          by (cases j) (auto simp: first_best_def)
      qed
      with ex i show ?thesis by auto
    next
      case nex: False
      with Cons.IH [OF rec] have "rm = bm \<and> rs = bs" by auto
      with False nex show ?thesis by auto
    qed
  qed
qed

lemma select_best_top:
  assumes "ms \<noteq> []" and "\<forall>m \<in> set ms. 0 \<le> winRate s m"
  shows "\<exists>i. first_best s ms i \<and> fst (select_best s ms (first_move ms, 0)) = Some (ms ! i)"
proof -
  obtain rm rs where r: "select_best s ms (first_move ms, 0) = (rm, rs)"
    by (cases "select_best s ms (first_move ms, 0)")
  from assms(1) have fm: "first_move ms = Some (ms ! 0)"
    by (cases ms) (simp_all add: first_move_def)
  show ?thesis
  proof (cases "\<exists>m \<in> set ms. winRate s m > 0")
    case True
    with select_best_first_max [OF r] r show ?thesis by auto
  next
    case False
    with select_best_first_max [OF r] fm have rm: "rm = Some (ms ! 0)" by auto
    from False assms(2) have zero: "\<forall>m \<in> set ms. winRate s m = 0" by force
    have "first_best s ms 0"
      unfolding first_best_def using assms(1) zero by simp
    with rm r show ?thesis by auto
  qed
qed

lemma evaluatePosition_wf:
  assumes "wf_board b"
  shows "\<exists>v. evaluatePosition nn b = Inr v \<and>
           ((\<forall>w. nn = Returns w \<longrightarrow> 0 \<le> w) \<longrightarrow> 0 \<le> v) \<and> (nn = Returns v \<or> heuristicEvaluation b = Inr v)"
proof (cases nn)
  case (Returns w)
  then show ?thesis by (simp add: evaluatePosition_def)
next
  case NotLoaded
  with heuristicEvaluation_wf [OF assms] show ?thesis by (auto simp: evaluatePosition_def)
next
  case Throws
  with heuristicEvaluation_wf [OF assms] show ?thesis by (auto simp: evaluatePosition_def)
next
  case TimesOut
  with heuristicEvaluation_wf [OF assms] show ?thesis by (auto simp: evaluatePosition_def)
qed

lemma checkGameEnd_board: "checkGameEnd g = (Inr u, g') \<Longrightarrow> board g' = board g"
  by (auto simp: endGame_def dest!: checkGameEnd_Inr)

lemma simulate_wf:
  assumes "wf_game g" and "gamePhase g \<noteq> starting" and "in_bounds move"
  shows "\<exists>v. simulate nn g move k = Inr v \<and>
           ((\<forall>j b w. nn j b = Returns w \<longrightarrow> 0 \<le> w) \<longrightarrow> 0 \<le> v) \<and>
           ((\<forall>j b. nn j b = Returns c) \<longrightarrow> v = c)"
proof -
  from assms(1,2) have w: "wf_board (board g)" "pos_ok (humanPos g)" "pos_ok (aiPos g)"
    using wf_game_playing by blast+
  from movePlayer_wf [OF w assms(3), of AI True] obtain b2
    where wf2: "wf_board b2"
      and mp: "movePlayer g AI (Some move) True = checkGameEnd (moved g AI move b2)"
    by auto
  from movePlayer_total [OF w assms(3), of AI True] obtain g'
    where g': "movePlayer g AI (Some move) True = (Inr (), g')" by blast
  with mp have "board g' = board (moved g AI move b2)" by (simp add: checkGameEnd_board)
  then have bd: "board g' = b2" by (simp add: moved_def)
  with wf2 have "wf_board (board g')" by simp
  from evaluatePosition_wf [OF this, of "nn k (board g')"] obtain v
    where v: "evaluatePosition (nn k (board g')) (board g') = Inr v"
      and nonneg: "(\<forall>w. nn k (board g') = Returns w \<longrightarrow> 0 \<le> w) \<longrightarrow> 0 \<le> v"
      and src: "nn k (board g') = Returns v \<or> heuristicEvaluation (board g') = Inr v"
    by blast
  have sim: "simulate nn g move k = Inr v"
    using g' v by (simp add: simulate_def cloneGame_def)
  have "v = c" if "\<forall>j b. nn j b = Returns c"
    using that v by (simp add: evaluatePosition_def)
  with sim nonneg show ?thesis by blast
qed

lemma mcts_round_no_error:
  assumes "\<forall>m \<in> set ms. \<forall>k. \<exists>v. simulate nn g m k = Inr v"
  shows "fst (mcts_round clock nn st limit g ms s) = Inr ()"
  using assms
proof (induction ms arbitrary: s)
  case Nil
  show ?case by simp
next
  case (Cons move rest)
  from Cons.prems have "\<exists>v. simulate nn g move (simulations s) = Inr v" by simp
  then obtain v where v: "simulate nn g move (simulations s) = Inr v" by blast
  from Cons.prems have "\<forall>m \<in> set rest. \<forall>k. \<exists>v. simulate nn g m k = Inr v" by simp
  then have "fst (mcts_round clock nn st limit g rest (credit s move v)) = Inr ()"
    by (rule Cons.IH)
  with v show ?case by (simp add: mcts_round_Cons del: mcts_round.simps)
qed

lemma winRate_nonneg: "0 \<le> scores s m \<Longrightarrow> 0 \<le> winRate s m"
  by (simp add: winRate_def div64_def round64_nonneg)

lemma tally_Cons:
  "tally m ((t, move, v) # entries) = (if move = m then add64 (tally m entries) v else tally m entries)"
  by (simp add: tally_def)

lemma count_of_Cons:
  "count_of m ((t, move, v) # entries) = (if move = m then count_of m entries + 1 else count_of m entries)"
  by (simp add: count_of_def)

lemma tally_const:
  assumes "\<forall>e \<in> set entries. snd (snd e) = c"
  shows "tally m entries = repeated_sum c (count_of m entries)"
  using assms
proof (induction entries)
  case Nil
  show ?case by (simp add: tally_def count_of_def)
next
  case (Cons e entries)
  obtain t move v where e: "e = (t, move, v)" by (cases e)
  from Cons.prems e have "v = c" by simp
  with Cons e show ?case by (simp add: tally_Cons count_of_Cons)
qed

lemma simulate_const:
  assumes "\<forall>j b. nn j b = Returns c" and "simulate nn g move k = Inr v"
  shows "v = c"
  using assms unfolding simulate_def evaluatePosition_def
  by (auto split: prod.splits sum.splits)

lemma tables_ok_credit:
  assumes "tables_ok nn g s" and "simulate nn g move k = Inr v"
  shows "tables_ok nn g (credit s move v)"
proof -
  from assms(1) have a: "\<And>m. scores s m = tally m (evaluated s)"
    and b: "\<And>m. visits s m = count_of m (evaluated s)"
    and c: "\<forall>e \<in> set (evaluated s). \<exists>k. simulate nn g (fst (snd e)) k = Inr (snd (snd e))"
    unfolding tables_ok_def by blast+
  have "scores (credit s move v) m = tally m (evaluated (credit s move v))" for m
    by (simp add: credit_fields tally_Cons a)
  moreover have "visits (credit s move v) m = count_of m (evaluated (credit s move v))" for m
    by (simp add: credit_fields count_of_Cons b)
  moreover from c assms(2)
  have "\<forall>e \<in> set (evaluated (credit s move v)). \<exists>k. simulate nn g (fst (snd e)) k = Inr (snd (snd e))"
    by (auto simp: credit_fields)
  ultimately show ?thesis unfolding tables_ok_def by blast
qed

lemma enhancedMCTS_tables:
  assumes "ms \<noteq> []"
  shows "\<exists>r s. enhancedMCTS cfg clock nn g ms = Some (r, s) \<and> tables_ok nn g s"
proof -
  have "\<exists>r s. enhancedMCTS cfg clock nn g ms = Some (r, s) \<and> tables_ok nn g s \<and>
           (r = Inr (fst (select_best s ms (first_move ms, 0))) \<or>
            (\<exists>s1 e. mcts_round clock nn (clock 0) (timeLimit cfg) g ms s1 = (Inl e, s)))"
  proof (rule enhancedMCTS_exit [where Q = "tables_ok nn g"])
    show "ms \<noteq> []" by fact
    show "tables_ok nn g (init_state ms)"
      using init_state_fields [of ms] by (simp add: tables_ok_def tally_def count_of_def)
  next
    fix s assume "tables_ok nn g s"
    then show "tables_ok nn g (s\<lparr>ticks := ticks s + 1\<rparr>)" by (simp add: tables_ok_def)
  next
    fix s r s'
    assume Q: "tables_ok nn g s"
      and rd: "mcts_round clock nn (clock 0) (timeLimit cfg) g ms (s\<lparr>ticks := ticks s + 1\<rparr>) = (r, s')"
    define P where "P rest t \<longleftrightarrow> tables_ok nn g t" for rest :: "pos list" and t
    have "\<exists>rest. P rest s'"
    proof (rule mcts_round_inv [where P = P, OF _ _ rd])
      from Q show "P ms (s\<lparr>ticks := ticks s + 1\<rparr>)" by (simp add: P_def tables_ok_def)
    next
      fix move rest t v
      assume "P (move # rest) t" and "simulate nn g move (simulations t) = Inr v"
      then show "P rest (credit t move v)" unfolding P_def by (rule tables_ok_credit)
    qed
    then show "tables_ok nn g s'" by (simp add: P_def)
  qed
  then show ?thesis by blast
qed

lemma winRate_spec_mean: "winRate s m = spec_mean s m"
  by (simp add: winRate_def spec_mean_def)

lemma enhancedMCTS_nonneg_tables:
  assumes wf: "wf_game g" "gamePhase g \<noteq> starting"
    and ne: "ms \<noteq> []" and inb: "\<forall>m \<in> set ms. in_bounds m"
    and nonneg: "\<forall>j b w. nn j b = Returns w \<longrightarrow> 0 \<le> w"
  shows "\<exists>s. enhancedMCTS cfg clock nn g ms = Some (Inr (fst (select_best s ms (first_move ms, 0))), s) \<and>
           (\<forall>m. 0 \<le> scores s m)"
proof -
  define Q where "Q s \<longleftrightarrow> (\<forall>m. 0 \<le> scores s m)" for s :: mcts_state
  have sim: "\<exists>v. simulate nn g m k = Inr v \<and> 0 \<le> v" if "m \<in> set ms" for m k
    using simulate_wf [OF wf, of m nn k] inb that nonneg by blast
  have "\<exists>r s. enhancedMCTS cfg clock nn g ms = Some (r, s) \<and> Q s \<and>
           (r = Inr (fst (select_best s ms (first_move ms, 0))) \<or>
            (\<exists>s1 e. mcts_round clock nn (clock 0) (timeLimit cfg) g ms s1 = (Inl e, s)))"
  proof (rule enhancedMCTS_exit [where Q = Q])
    show "ms \<noteq> []" by fact
    show "Q (init_state ms)" using init_state_fields [of ms] by (simp add: Q_def)
  next
    fix s assume "Q s"
    then show "Q (s\<lparr>ticks := ticks s + 1\<rparr>)" by (simp add: Q_def)
  next
    fix s r s'
    assume Q: "Q s"
      and rd: "mcts_round clock nn (clock 0) (timeLimit cfg) g ms (s\<lparr>ticks := ticks s + 1\<rparr>) = (r, s')"
    define P where "P rest t \<longleftrightarrow> Q t \<and> set rest \<subseteq> set ms" for rest t
    have "\<exists>rest. P rest s'"
    proof (rule mcts_round_inv [where P = P, OF _ _ rd])
      from Q show "P ms (s\<lparr>ticks := ticks s + 1\<rparr>)" by (simp add: P_def Q_def)
    next
      fix move rest t v
      assume P: "P (move # rest) t" and v: "simulate nn g move (simulations t) = Inr v"
      from P have "move \<in> set ms" by (simp add: P_def)
      with sim [of move "simulations t"] v have "0 \<le> v" by simp
      moreover from P have "0 \<le> scores t move" unfolding P_def Q_def by blast
      ultimately have "0 \<le> add64 (scores t move) v"
        unfolding add64_def by (intro round64_nonneg) simp
      with P show "P rest (credit t move v)"
        by (simp add: P_def Q_def credit_fields del: split_paired_All split_paired_Ex)
    qed
    then show "Q s'" by (auto simp: P_def)
  qed
  then obtain r s where res: "enhancedMCTS cfg clock nn g ms = Some (r, s)" and Q: "Q s"
    and r: "r = Inr (fst (select_best s ms (first_move ms, 0))) \<or>
            (\<exists>s1 e. mcts_round clock nn (clock 0) (timeLimit cfg) g ms s1 = (Inl e, s))"
    by blast
  have "fst (mcts_round clock nn (clock 0) (timeLimit cfg) g ms s1) = Inr ()" for s1
    by (rule mcts_round_no_error) (use sim in blast)
  then have "mcts_round clock nn (clock 0) (timeLimit cfg) g ms s1 \<noteq> (Inl e, s)" for s1 e
    by (metis fst_conv sum.distinct(1))
  with r have "r = Inr (fst (select_best s ms (first_move ms, 0)))" by blast
  with res Q show ?thesis by (auto simp: Q_def)
qed

text \<open>When the first reading falls before the deadline and the cap is positive, the
  first candidate is evaluated.\<close>

lemma mcts_round_keeps_visit:
  assumes "mcts_round clock nn st limit g ms s = (r, s')" and "0 < visits s m"
  shows "0 < visits s' m"
proof -
  define P where "P rest t \<longleftrightarrow> 0 < visits t m" for rest :: "pos list" and t :: mcts_state
  have "\<exists>rest. P rest s'"
  proof (rule mcts_round_inv [where P = P, OF _ _ assms(1)])
    from assms(2) show "P ms s" by (simp add: P_def)
  next
    fix move rest t v
    assume "P (move # rest) t"
    then show "P rest (credit t move v)" by (simp add: P_def credit_fields)
  qed
  then show ?thesis by (simp add: P_def)
qed

lemma mcts_round_first_visit:
  assumes "mcts_round clock nn st limit g ms s = (r, s')" and "ms \<noteq> []"
    and "\<forall>m \<in> set ms. \<forall>k. \<exists>v. simulate nn g m k = Inr v"
  shows "0 < visits s' (ms ! 0)"
proof -
  from assms(2) obtain m rest where ms: "ms = m # rest" by (cases ms) auto
  with assms(3) have "\<exists>v. simulate nn g m (simulations s) = Inr v" by simp
  then obtain v where v: "simulate nn g m (simulations s) = Inr v" by blast
  have c: "0 < visits (credit s m v) m" by (simp add: credit_fields)
  show ?thesis
  proof (cases "clock (ticks s) - st \<ge> limit")
    case True
    with assms(1) ms v have "s' = credit s m v" by (simp add: mcts_round_Cons del: mcts_round.simps)
    with c ms show ?thesis by simp
  next
    case False
    with assms(1) ms v have "mcts_round clock nn st limit g rest (credit s m v) = (r, s')"
      by (simp add: mcts_round_Cons del: mcts_round.simps)
    from this c have "0 < visits s' m" by (rule mcts_round_keeps_visit)
    with ms show ?thesis by simp
  qed
qed

lemma enhancedMCTS_while:
  assumes "enhancedMCTS cfg clock nn g ms = Some (r, s)"
  shows "\<exists>r0. mcts_while clock nn (clock 0) (timeLimit cfg) (maxSimulations cfg) g ms (init_state ms)
           = Some (r0, s)"
  using assms unfolding enhancedMCTS_def Let_def
  by (auto split: option.splits sum.splits prod.splits)

lemma enhancedMCTS_live:
  assumes ne: "ms \<noteq> []"
    and sim: "\<forall>m \<in> set ms. \<forall>k. \<exists>v. simulate nn g m k = Inr v"
    and res: "enhancedMCTS cfg clock nn g ms = Some (r, s)"
    and live: "clock 1 - clock 0 < timeLimit cfg" "0 < maxSimulations cfg"
  shows "0 < visits s (ms ! 0)"
proof -
  let ?while = "mcts_while clock nn (clock 0) (timeLimit cfg) (maxSimulations cfg) g ms"
  let ?round = "mcts_round clock nn (clock 0) (timeLimit cfg) g ms"
  let ?s1 = "(init_state ms)\<lparr>ticks := ticks (init_state ms) + 1\<rparr>"
  from res obtain r0 where w: "?while (init_state ms) = Some (r0, s)"
    using enhancedMCTS_while by blast
  obtain r2 s2 where rd: "?round ?s1 = (r2, s2)" by (cases "?round ?s1")
  from rd ne sim have v2: "0 < visits s2 (ms ! 0)" by (rule mcts_round_first_visit)
  have "fst (?round ?s1) = Inr ()" by (rule mcts_round_no_error) (use sim in blast)
  with rd have r2: "r2 = Inr ()" by simp
  from live have cond: "clock (ticks (init_state ms)) - clock 0 < timeLimit cfg \<and>
      int (simulations (init_state ms)) < maxSimulations cfg"
    using init_state_fields [of ms] by simp
  show ?thesis
  proof (cases "int (simulations s2) \<ge> maxSimulations cfg")
    case True
    with cond rd r2 have "?while (init_state ms) = Some (Inr (), s2)"
      by (subst mcts_while.simps) (simp add: Let_def)
    with w v2 show ?thesis by simp
  next
    case False
    with cond rd r2 have eq: "?while (init_state ms) = ?while s2"
      by (subst mcts_while.simps) (simp add: Let_def)
    have "\<exists>r s'. ?while s2 = Some (r, s') \<and> 0 < visits s' (ms ! 0) \<and>
           (r = Inr () \<or> (\<exists>s1 e. ?round s1 = (Inl e, s')))"
    proof (rule mcts_while_exit [where Q = "\<lambda>s. 0 < visits s (ms ! 0)"])
      show "ms \<noteq> []" by fact
      show "0 < visits (t\<lparr>ticks := ticks t + 1\<rparr>) (ms ! 0)" if "0 < visits t (ms ! 0)" for t
        using that by simp
      show "0 < visits t' (ms ! 0)" if "0 < visits t (ms ! 0)"
        "?round (t\<lparr>ticks := ticks t + 1\<rparr>) = (r', t')" for t r' t'
        using that(2) by (rule mcts_round_keeps_visit) (use that(1) in simp)
      show "0 < visits s2 (ms ! 0)" by fact
    qed
    with eq w show ?thesis by auto
  qed
qed

lemma spec_mean_const:
  assumes "tables_ok nn g s" and "\<forall>k b. nn k b = Returns c"
  shows "spec_mean s m = (if visits s m = 0 then 0
           else div64 (repeated_sum c (visits s m)) (real (visits s m)))"
proof -
  from assms(1) have a: "scores s m = tally m (evaluated s)"
    and b: "visits s m = count_of m (evaluated s)"
    and c: "\<forall>e \<in> set (evaluated s). \<exists>k. simulate nn g (fst (snd e)) k = Inr (snd (snd e))"
    unfolding tables_ok_def by blast+
  from c assms(2) have "\<forall>e \<in> set (evaluated s). snd (snd e) = c"
    using simulate_const by blast
  then have "tally m (evaluated s) = repeated_sum c (count_of m (evaluated s))"
    by (rule tally_const)
  with a b show ?thesis by (simp add: spec_mean_def)
qed

text \<open>
  C8 (amended). On a well-formed session, with candidates on the grid and an evaluator
  that never answers below 0, the selection returns the candidate whose mean score
  (the running sum divided by the visit count, both as the engine computes them, 0
  without visits) is greatest, and the first of them in the order of the candidate
  list when several share it. The two tables are the sums and the counts of the
  evaluations made, and the first candidate is evaluated whenever the first clock
  reading is early and the cap is positive. With a learned strategy that gives the
  same answer on every call, the first candidate is returned when all candidates have
  been visited equally often.
\<close>

theorem enhancedMCTS_selects_first_best:
  assumes "wf_game g" and "gamePhase g \<noteq> starting"
    and "validMoves \<noteq> []" and "\<forall>m \<in> set validMoves. in_bounds m"
    and "\<forall>k b v. nn k b = Returns v \<longrightarrow> 0 \<le> v"
  shows "\<exists>i s. enhancedMCTS cfg clock nn g validMoves = Some (Inr (Some (validMoves ! i)), s) \<and>
           i < length validMoves \<and>
           (\<forall>j < length validMoves. spec_mean s (validMoves ! j) \<le> spec_mean s (validMoves ! i)) \<and>
           (\<forall>j < i. spec_mean s (validMoves ! j) < spec_mean s (validMoves ! i)) \<and>
           (\<forall>m. scores s m = tally m (evaluated s) \<and> visits s m = count_of m (evaluated s)) \<and>
           (\<forall>(t, m, v) \<in> set (evaluated s). \<exists>k. simulate nn g m k = Inr v) \<and>
           (clock 1 - clock 0 < timeLimit cfg \<and> 0 < maxSimulations cfg \<longrightarrow>
              0 < visits s (validMoves ! 0)) \<and>
           ((\<exists>c. \<forall>k b. nn k b = Returns c) \<and>
            (\<forall>m \<in> set validMoves. visits s m = visits s (validMoves ! 0)) \<longrightarrow> i = 0)"
proof -
  from enhancedMCTS_nonneg_tables [OF assms] obtain s
    where res: "enhancedMCTS cfg clock nn g validMoves =
        Some (Inr (fst (select_best s validMoves (first_move validMoves, 0))), s)"
      and nn0: "\<forall>m. 0 \<le> scores s m"
    by blast
  from nn0 have "\<forall>m \<in> set validMoves. 0 \<le> winRate s m"
    by (simp add: winRate_nonneg del: split_paired_All split_paired_Ex)
  with assms(3) obtain i where fb: "first_best s validMoves i"
    and sel: "fst (select_best s validMoves (first_move validMoves, 0)) = Some (validMoves ! i)"
    using select_best_top by blast
  from fb have i: "i < length validMoves"
    and top: "\<forall>j < length validMoves. spec_mean s (validMoves ! j) \<le> spec_mean s (validMoves ! i)"
    and first: "\<forall>j < i. spec_mean s (validMoves ! j) < spec_mean s (validMoves ! i)"
    by (simp_all add: first_best_def winRate_spec_mean)
  from enhancedMCTS_tables [OF assms(3), of cfg clock nn g] res have tb: "tables_ok nn g s"
    by auto
  then have t1: "\<forall>m. scores s m = tally m (evaluated s) \<and> visits s m = count_of m (evaluated s)"
    unfolding tables_ok_def by blast
  from tb have "\<forall>e \<in> set (evaluated s). \<exists>k. simulate nn g (fst (snd e)) k = Inr (snd (snd e))"
    unfolding tables_ok_def by blast
  then have t2: "\<forall>(t, m, v) \<in> set (evaluated s). \<exists>k. simulate nn g m k = Inr v"
    by fastforce
  have sim: "\<forall>m \<in> set validMoves. \<forall>k. \<exists>v. simulate nn g m k = Inr v"
    using simulate_wf [OF assms(1,2)] assms(4) by blast
  have live: "0 < visits s (validMoves ! 0)"
    if "clock 1 - clock 0 < timeLimit cfg" "0 < maxSimulations cfg"
    using assms(3) sim res that by (rule enhancedMCTS_live)
  have const: "i = 0" if c: "\<forall>k b. nn k b = Returns c"
    and eq: "\<forall>m \<in> set validMoves. visits s m = visits s (validMoves ! 0)" for c
  proof (rule ccontr)
    assume "i \<noteq> 0"
    with first have lt: "spec_mean s (validMoves ! 0) < spec_mean s (validMoves ! i)" by simp
    from i eq have "visits s (validMoves ! i) = visits s (validMoves ! 0)" by simp
    then have "spec_mean s (validMoves ! i) = spec_mean s (validMoves ! 0)"
      by (simp add: spec_mean_const [OF tb c])
    with lt show False by simp
  qed
  from res sel have r: "enhancedMCTS cfg clock nn g validMoves = Some (Inr (Some (validMoves ! i)), s)"
    by simp
  from live have l: "clock 1 - clock 0 < timeLimit cfg \<and> 0 < maxSimulations cfg \<longrightarrow>
      0 < visits s (validMoves ! 0)"
    by blast
  from const have c0: "(\<exists>c. \<forall>k b. nn k b = Returns c) \<and>
      (\<forall>m \<in> set validMoves. visits s m = visits s (validMoves ! 0)) \<longrightarrow> i = 0"
    by blast
  show ?thesis
  proof (intro exI conjI)
    show "enhancedMCTS cfg clock nn g validMoves = Some (Inr (Some (validMoves ! i)), s)" by fact
    show "i < length validMoves" by fact
    show "\<forall>j < length validMoves. spec_mean s (validMoves ! j) \<le> spec_mean s (validMoves ! i)" by fact
    show "\<forall>j < i. spec_mean s (validMoves ! j) < spec_mean s (validMoves ! i)" by fact
    show "\<forall>m. scores s m = tally m (evaluated s) \<and> visits s m = count_of m (evaluated s)" by fact
    show "\<forall>(t, m, v) \<in> set (evaluated s). \<exists>k. simulate nn g m k = Inr v" by fact
    show "clock 1 - clock 0 < timeLimit cfg \<and> 0 < maxSimulations cfg \<longrightarrow>
      0 < visits s (validMoves ! 0)" by fact
    show "(\<exists>c. \<forall>k b. nn k b = Returns c) \<and>
      (\<forall>m \<in> set validMoves. visits s m = visits s (validMoves ! 0)) \<longrightarrow> i = 0" by fact
  qed
qed

lemma rounding_run:
  "outcome [(2, 3), (4, 3), (3, 2), (3, 4), (2, 4), (4, 2), (4, 4)]
     (enhancedMCTS default_cfg late_clock tenth_net demo2 [(2, 3), (4, 3), (3, 2), (3, 4), (2, 4), (4, 2), (4, 4)])
   = Some (Inr (Some (4, 3)), [4, 3, 3, 3, 3, 3, 3], 22)"
  "div64 (repeated_sum tenth 4) 4 = tenth"
  "div64 (repeated_sum tenth 3) 3 = 7205759403792795 / 72057594037927936"
  "wf_game demo2"
  by code_simp+

text \<open>
  C8 as stated fails: the learned strategy answers 0.1 on every call and the deadline
  passes during the fourth round, after its first candidate. The first candidate has
  four visits and the mean 0.1; the six others have three visits, a running sum that
  was rounded up, and a mean one step above 0.1. The second candidate (4, 3) is
  returned, not the first.
\<close>

theorem enhancedMCTS_selects_first_best_counterexample:
  "getValidMoves (board demo2) (aiPos demo2) = Inr [(2, 3), (4, 3), (3, 2), (3, 4), (2, 4), (4, 2), (4, 4)] \<and>
   tenth_net 0 (board demo2) = Returns tenth \<and>
   outcome [(2, 3), (4, 3), (3, 2), (3, 4), (2, 4), (4, 2), (4, 4)]
     (enhancedMCTS default_cfg late_clock tenth_net demo2 [(2, 3), (4, 3), (3, 2), (3, 4), (2, 4), (4, 2), (4, 4)])
   = Some (Inr (Some (4, 3)), [4, 3, 3, 3, 3, 3, 3], 22) \<and>
   div64 (repeated_sum tenth 4) 4 = tenth \<and>
   div64 (repeated_sum tenth 3) 3 = 7205759403792795 / 72057594037927936 \<and>
   tenth < 7205759403792795 / 72057594037927936"
proof -
  have "tenth < 7205759403792795 / 72057594037927936" by (simp add: tenth_def)
  moreover have "tenth_net 0 (board demo2) = Returns tenth" by (simp add: tenth_net_def)
  ultimately show ?thesis using budget_run(2) rounding_run(1-3) by blast
qed

text \<open>The same selection: the candidate returned has the greater mean.\<close>

theorem enhancedMCTS_selects_first_best_witness:
  "wf_game demo2 \<and> gamePhase demo2 \<noteq> starting \<and>
   [(2, 3), (4, 3), (3, 2), (3, 4), (2, 4), (4, 2), (4, 4)] \<noteq> ([] :: pos list) \<and>
   list_all in_bounds [(2, 3), (4, 3), (3, 2), (3, 4), (2, 4), (4, 2), (4, 4)] \<and>
   (\<exists>s. enhancedMCTS default_cfg late_clock tenth_net demo2
          [(2, 3), (4, 3), (3, 2), (3, 4), (2, 4), (4, 2), (4, 4)] = Some (Inr (Some (4, 3)), s) \<and>
        spec_mean s (2, 3) < spec_mean s (4, 3) \<and> 0 < visits s (2, 3))"
proof -
  let ?ms = "[(2, 3), (4, 3), (3, 2), (3, 4), (2, 4), (4, 2), (4, 4)] :: pos list"
  have wf: "wf_game demo2" by (rule rounding_run(4))
  have ph: "gamePhase demo2 \<noteq> starting" by (simp add: demo2_def)
  have ne: "?ms \<noteq> []" by simp
  have inb: "\<forall>m \<in> set ?ms. in_bounds m"
    by (simp add: in_bounds_def isValidPosition_def BOARD_SIZE_def)
  have nn: "\<forall>k b v. tenth_net k b = Returns v \<longrightarrow> 0 \<le> v"
    by (simp add: tenth_net_def tenth_def)
  from enhancedMCTS_selects_first_best [OF wf ph ne inb nn, of default_cfg late_clock] obtain i s
    where res: "enhancedMCTS default_cfg late_clock tenth_net demo2 ?ms = Some (Inr (Some (?ms ! i)), s)"
      and i: "i < length ?ms"
      and first: "\<forall>j < i. spec_mean s (?ms ! j) < spec_mean s (?ms ! i)"
      and live: "late_clock 1 - late_clock 0 < timeLimit default_cfg \<and> 0 < maxSimulations default_cfg \<longrightarrow>
              0 < visits s (?ms ! 0)"
    by blast
  from rounding_run(1) res have sel: "?ms ! i = (4, 3)" by (simp add: outcome_def)
  from i have "i = 0 \<or> i = 1 \<or> i = 2 \<or> i = 3 \<or> i = 4 \<or> i = 5 \<or> i = 6" by auto
  with sel have i1: "i = 1" by auto
  with first have "spec_mean s (?ms ! 0) < spec_mean s (?ms ! 1)" by simp
  then have lt: "spec_mean s (2, 3) < spec_mean s (4, 3)" by simp
  have "late_clock 1 - late_clock 0 < timeLimit default_cfg \<and> 0 < maxSimulations default_cfg"
    by (simp add: late_clock_def timeLimit_def maxSimulations_def default_cfg_def)
  with live have v: "0 < visits s (2, 3)" by simp
  from res i1 have "enhancedMCTS default_cfg late_clock tenth_net demo2 ?ms = Some (Inr (Some (4, 3)), s)"
    by simp
  with wf ph ne inb lt v show ?thesis by (auto simp: list_all_iff)
qed

end
